theory Spec2Isabelle
  imports Main "HOL-Library.Sublist" "HOL-Library.Multiset"
begin

section \<open>Strings\<close>

text \<open>
  Paths and file names are Python \<open>str\<close> values, modelled as \<open>string\<close>.
  \<open>endswith s suf\<close> is \<open>s.endswith(suf)\<close>, \<open>contains sub s\<close> is \<open>sub in s\<close>
  and \<open>replace old new s\<close> is \<open>s.replace(old, new)\<close>: every non-overlapping occurrence
  of \<open>old\<close>, scanning from the left, is replaced. The source only calls \<open>replace\<close> with a
  non-empty \<open>old\<close>; for the empty one Python puts \<open>new\<close> before every character and at
  the end.
\<close>

definition endswith :: "string \<Rightarrow> string \<Rightarrow> bool" where
  "endswith s suf = prefix (rev suf) (rev s)"

fun contains :: "string \<Rightarrow> string \<Rightarrow> bool" where
  "contains sub [] = (sub = [])"
| "contains sub (c # cs) = (prefix sub (c # cs) \<or> contains sub cs)"

fun replace :: "string \<Rightarrow> string \<Rightarrow> string \<Rightarrow> string" where
  "replace [] new [] = new"
| "replace [] new (c # cs) = new @ c # replace [] new cs"
| "replace (a # as) new [] = []"
| "replace (a # as) new (c # cs) =
     (if prefix (a # as) (c # cs) then new @ replace (a # as) new (drop (length as) cs)
      else c # replace (a # as) new cs)"

section \<open>The file system\<close>

text \<open>
  The working directory is a tree. A directory lists its entries in the order in which
  the file system enumerates them (\<open>os.scandir\<close>), which is the order \<open>glob\<close> returns
  them in. A path is resolved one segment after the other from the working directory.
\<close>

datatype node = File string | Dir "(string \<times> node) list"

fun split_path :: "string \<Rightarrow> string list" where
  "split_path [] = [[]]"
| "split_path (c # cs) =
     (if c = CHR ''/'' then [] # split_path cs
      else (case split_path cs of [] \<Rightarrow> [[c]] | s # ss \<Rightarrow> (c # s) # ss))"

fun lookup :: "node \<Rightarrow> string list \<Rightarrow> node option" where
  "lookup n [] = Some n"
| "lookup (File t) (s # ss) = None"
| "lookup (Dir es) (s # ss) = (case map_of es s of None \<Rightarrow> None | Some c \<Rightarrow> lookup c ss)"

definition path_exists :: "node \<Rightarrow> string \<Rightarrow> bool" where
  "path_exists root p = (lookup root (split_path p) \<noteq> None)"

text \<open>\<open>open(p, "r").read()\<close>: the text of a file; opening a directory or a missing path raises.\<close>

definition read_file :: "node \<Rightarrow> string \<Rightarrow> string option" where
  "read_file root p = (case lookup root (split_path p) of Some (File t) \<Rightarrow> Some t | _ \<Rightarrow> None)"

subsection \<open>glob\<close>

text \<open>
  The patterns of the source, one name at a time: \<open>*\<close> is \<open>Star\<close>, a bracket
  expression such as \<open>[jJ]\<close> is \<open>Class\<close>, any other character stands for itself.
  \<open>fnmatch\<close> matches a whole name. A name that starts with a dot is hidden: \<open>glob\<close>
  returns it only for a pattern that starts with a dot itself, and the recursive \<open>**\<close>
  never descends into a hidden directory.
\<close>

datatype pat = Star | Lit char | Class "char list"

fun fnmatch :: "pat list \<Rightarrow> string \<Rightarrow> bool" where
  "fnmatch [] s = (s = [])"
| "fnmatch (Star # ps) [] = fnmatch ps []"
| "fnmatch (Star # ps) (c # cs) = (fnmatch ps (c # cs) \<or> fnmatch (Star # ps) cs)"
| "fnmatch (Lit a # ps) [] = False"
| "fnmatch (Lit a # ps) (c # cs) = (a = c \<and> fnmatch ps cs)"
| "fnmatch (Class as # ps) [] = False"
| "fnmatch (Class as # ps) (c # cs) = (c \<in> set as \<and> fnmatch ps cs)"

fun ishidden :: "string \<Rightarrow> bool" where
  "ishidden [] = False"
| "ishidden (c # cs) = (c = CHR ''.'')"

fun pat_ishidden :: "pat list \<Rightarrow> bool" where
  "pat_ishidden (Lit c # ps) = (c = CHR ''.'')"
| "pat_ishidden ps = False"

text \<open>The names of one directory that a pattern matches, in enumeration order.\<close>

definition glob1 :: "(string \<times> node) list \<Rightarrow> pat list \<Rightarrow> string list" where
  "glob1 es p =
     filter (fnmatch p)
       (if pat_ishidden p then map fst es else filter (\<lambda>n. \<not> ishidden n) (map fst es))"

text \<open>\<open>glob.glob("d/<pattern>")\<close> for a literal directory name \<open>d\<close>: nothing when \<open>d\<close>
  is missing or is not a directory.\<close>

definition glob_in :: "node \<Rightarrow> string \<Rightarrow> pat list \<Rightarrow> string list" where
  "glob_in root d p =
     (case lookup root [d] of
        Some (Dir es) \<Rightarrow> map (\<lambda>n. d @ ''/'' @ n) (glob1 es p)
      | _ \<Rightarrow> [])"

text \<open>
  \<open>glob.glob("d/**/<pattern>", recursive=True)\<close>: the matches directly in \<open>d\<close>, then
  those of every directory below it that is not hidden, in pre-order.
\<close>

fun rglob :: "string \<Rightarrow> pat list \<Rightarrow> (string \<times> node) list \<Rightarrow> string list"
  and rglob_sub :: "string \<Rightarrow> pat list \<Rightarrow> (string \<times> node) list \<Rightarrow> string list" where
  "rglob pre p es = map (\<lambda>n. pre @ n) (glob1 es p) @ rglob_sub pre p es"
| "rglob_sub pre p [] = []"
| "rglob_sub pre p ((n, File t) # es) = rglob_sub pre p es"
| "rglob_sub pre p ((n, Dir ds) # es) =
     (if ishidden n then [] else rglob (pre @ n @ ''/'') p ds) @ rglob_sub pre p es"

definition glob_rec :: "node \<Rightarrow> string \<Rightarrow> pat list \<Rightarrow> string list" where
  "glob_rec root d p =
     (case lookup root [d] of
        Some (Dir es) \<Rightarrow> rglob (d @ ''/'') p es
      | _ \<Rightarrow> [])"

subsection \<open>Path names\<close>

text \<open>
  \<open>os.path.join\<close> of two parts, \<open>os.path.dirname\<close> and \<open>os.path.basename\<close>, as
  \<open>posixpath\<close> defines them. \<open>relpath p start\<close> is \<open>os.path.relpath\<close> for the paths the
  program passes: relative, without \<open>.\<close> or \<open>..\<close> or doubled slashes, and \<open>start\<close> a
  directory name of the working directory. Every path that \<open>glob\<close> returns for
  \<open>templates/**\<close> starts with \<open>templates/\<close>, and its relative path is what follows.
\<close>

definition join :: "string \<Rightarrow> string \<Rightarrow> string" where
  "join a b =
     (if prefix ''/'' b then b
      else if a = [] \<or> endswith a ''/'' then a @ b
      else a @ ''/'' @ b)"

definition rstrip_slash :: "string \<Rightarrow> string" where
  "rstrip_slash s = rev (dropWhile (\<lambda>c. c = CHR ''/'') (rev s))"

definition dirname :: "string \<Rightarrow> string" where
  "dirname p =
     (let head = rev (dropWhile (\<lambda>c. c \<noteq> CHR ''/'') (rev p))
      in if rstrip_slash head = [] then head else rstrip_slash head)"

definition basename :: "string \<Rightarrow> string" where
  "basename p = rev (takeWhile (\<lambda>c. c \<noteq> CHR ''/'') (rev p))"

definition relpath :: "string \<Rightarrow> string \<Rightarrow> string" where
  "relpath p start =
     (if p = start then ''.''
      else if prefix (start @ ''/'') p then drop (length start + 1) p
      else ''../'' @ p)"

subsection \<open>Writing\<close>

text \<open>
  Each operation returns the new tree, or \<open>None\<close> where the call raises \<open>OSError\<close>.
  A new entry is enumerated after the entries its directory already has; a file that is
  overwritten keeps its place.
\<close>

fun put :: "string \<Rightarrow> node \<Rightarrow> (string \<times> node) list \<Rightarrow> (string \<times> node) list" where
  "put s c [] = [(s, c)]"
| "put s c ((n, x) # es) = (if n = s then (s, c) # es else (n, x) # put s c es)"

fun fresh :: "string list \<Rightarrow> node" where
  "fresh [] = Dir []"
| "fresh (s # ss) = Dir [(s, fresh ss)]"

text \<open>\<open>os.makedirs(p)\<close>: the directory and its missing parents; raises when \<open>p\<close> exists or
  when a file stands where a directory is needed.\<close>

fun makedirs :: "node \<Rightarrow> string list \<Rightarrow> node option" where
  "makedirs n [] = None"
| "makedirs (File t) (s # ss) = None"
| "makedirs (Dir es) (s # ss) =
     (case map_of es s of
        None \<Rightarrow> Some (Dir (es @ [(s, fresh ss)]))
      | Some c \<Rightarrow>
          (case makedirs c ss of
             None \<Rightarrow> None
           | Some c' \<Rightarrow> Some (Dir (put s c' es))))"

text \<open>\<open>open(p, "w")\<close> followed by \<open>write(t)\<close>: creates or overwrites the file; raises when
  \<open>p\<close> is a directory or its parent is missing or is a file.\<close>

fun write_at :: "node \<Rightarrow> string list \<Rightarrow> string \<Rightarrow> node option" where
  "write_at (File u) [] t = Some (File t)"
| "write_at (Dir es) [] t = None"
| "write_at (File u) (s # ss) t = None"
| "write_at (Dir es) (s # ss) t =
     (case map_of es s of
        None \<Rightarrow> if ss = [] then Some (Dir (es @ [(s, File t)])) else None
      | Some c \<Rightarrow>
          (case write_at c ss t of
             None \<Rightarrow> None
           | Some c' \<Rightarrow> Some (Dir (put s c' es))))"

definition write_file :: "node \<Rightarrow> string \<Rightarrow> string \<Rightarrow> node option" where
  "write_file root p t = write_at root (split_path p) t"

text \<open>\<open>os.remove(p)\<close>: raises when \<open>p\<close> is missing or is a directory.\<close>

fun remove_at :: "node \<Rightarrow> string list \<Rightarrow> node option" where
  "remove_at n [] = None"
| "remove_at (File t) (s # ss) = None"
| "remove_at (Dir es) [s] =
     (case map_of es s of
        Some (File t) \<Rightarrow> Some (Dir (filter (\<lambda>e. fst e \<noteq> s) es))
      | _ \<Rightarrow> None)"
| "remove_at (Dir es) (s # s' # ss) =
     (case map_of es s of
        None \<Rightarrow> None
      | Some c \<Rightarrow>
          (case remove_at c (s' # ss) of
             None \<Rightarrow> None
           | Some c' \<Rightarrow> Some (Dir (put s c' es))))"

text \<open>\<open>shutil.copy(src, dst)\<close>: the text of \<open>src\<close> written to \<open>dst\<close>, or into \<open>dst\<close> under
  the name of \<open>src\<close> when \<open>dst\<close> is a directory.\<close>

definition copy :: "node \<Rightarrow> string \<Rightarrow> string \<Rightarrow> node option" where
  "copy root src dst =
     (case read_file root src of
        None \<Rightarrow> None
      | Some t \<Rightarrow>
          (case lookup root (split_path dst) of
             Some (Dir es) \<Rightarrow> write_file root (join dst (basename src)) t
           | _ \<Rightarrow> write_file root dst t))"

section \<open>Collaborators, context and output\<close>

text \<open>
  What \<open>json.load\<close> or \<open>yaml.safe_load\<close> returns, as \<open>dict.update\<close> sees it: a mapping
  (its items in order), another iterable (each element is a key and a value, or something
  that is neither), or a value that cannot be iterated (a number, \<open>None\<close>). Keys are
  strings, as the keys of a JSON object are; a key of another type is not modelled.
\<close>

datatype 'v item = KeyValue string 'v | NotAPair

datatype 'v doc = Mapping "(string \<times> 'v) list" | Sequence "'v item list" | Scalar

type_synonym 'v ctx = "string \<rightharpoonup> 'v"

datatype render_error = TemplateError | OtherError

text \<open>
  The parsers and the template engine are libraries: a parser maps the text of a file to
  a document or raises (\<open>None\<close>); the engine looks a template up by its path relative to
  \<open>templates\<close> in the current file system and expands it against the context, or raises
  a \<open>TemplateError\<close> or another exception.
\<close>

record 'v libs =
  json_load :: "string \<Rightarrow> 'v doc option"
  yaml_load :: "string \<Rightarrow> 'v doc option"
  render :: "node \<Rightarrow> string \<Rightarrow> 'v ctx \<Rightarrow> render_error + string"

text \<open>The argument \<open>trigger_file\<close>: a path or a list of paths; \<open>None\<close> is the default.\<close>

datatype trigger = Path string | Paths "string list"

datatype cause = OpenFailed | ParseFailed | MergeFailed

text \<open>
  The lines the program prints, one constructor for each \<open>print\<close> of the source. The
  traceback that follows an error line goes to the error stream and is left out.
\<close>

datatype line =
    Calling "trigger option"
  | RebuildTriggered string
  | Loaded string
  | ErrorLoading string cause
  | Copied string string
  | ErrorCopying string string
  | Rendered string string
  | ErrorRendering string
  | UnexpectedError string
  | Modified string
  | Created string
  | Deleted string

record state =
  fs :: node
  out :: "line list"

definition print :: "line \<Rightarrow> state \<Rightarrow> state" where
  "print l st = st\<lparr>out := out st @ [l]\<rparr>"

section \<open>load\_data\<close>

text \<open>
  \<open>data.update(x)\<close> stores the items one after the other, so an element that is not a
  pair raises after the pairs before it have been stored. The result is the dictionary
  and whether the call returned.
\<close>

fun update_seq :: "'v ctx \<Rightarrow> 'v item list \<Rightarrow> 'v ctx \<times> bool" where
  "update_seq d [] = (d, True)"
| "update_seq d (KeyValue k v # its) = update_seq (d(k \<mapsto> v)) its"
| "update_seq d (NotAPair # its) = (d, False)"

fun update :: "'v ctx \<Rightarrow> 'v doc \<Rightarrow> 'v ctx \<times> bool" where
  "update d (Mapping kvs) = (fold (\<lambda>(k, v) m. m(k \<mapsto> v)) kvs d, True)"
| "update d (Sequence its) = update_seq d its"
| "update d Scalar = (d, False)"

text \<open>The body of either loop of \<open>load_data\<close> for one file, with its \<open>try\<close> and \<open>except\<close>.\<close>

definition load_file ::
  "(string \<Rightarrow> 'v doc option) \<Rightarrow> string \<Rightarrow> 'v ctx \<times> state \<Rightarrow> 'v ctx \<times> state" where
  "load_file parse f acc =
     (case acc of (d, st) \<Rightarrow>
        (case read_file (fs st) f of
           None \<Rightarrow> (d, print (ErrorLoading f OpenFailed) st)
         | Some t \<Rightarrow>
             (case parse t of
                None \<Rightarrow> (d, print (ErrorLoading f ParseFailed) st)
              | Some x \<Rightarrow>
                  (case update d x of
                     (d', True) \<Rightarrow> (d', print (Loaded f) st)
                   | (d', False) \<Rightarrow> (d', print (ErrorLoading f MergeFailed) st)))))"

definition json_pat :: "pat list" where
  "json_pat = [Star, Lit CHR ''.'', Class ''jJ'', Class ''sS'', Class ''oO'', Class ''nN'']"

definition yaml_pat :: "pat list" where
  "yaml_pat = [Star, Lit CHR ''.'', Class ''yY'', Class ''aA'', Class ''mM'', Class ''lL'']"

definition load_data :: "'v libs \<Rightarrow> state \<Rightarrow> 'v ctx \<times> state" where
  "load_data L st =
     (let a = fold (load_file (json_load L)) (glob_in (fs st) ''data'' json_pat) (Map.empty, st)
      in fold (load_file (yaml_load L)) (glob_in (fs (snd a)) ''data'' yaml_pat) a)"

section \<open>copy\_html\_files\<close>

definition html_pat :: "pat list" where
  "html_pat = [Star, Lit CHR ''.'', Lit CHR ''h'', Lit CHR ''t'', Lit CHR ''m'', Lit CHR ''l'']"

text \<open>
  \<open>if not os.path.exists(p): os.makedirs(p)\<close>. Both functions start with it for \<open>site\<close>,
  outside any \<open>try\<close>; there \<open>makedirs\<close> cannot raise, since a name that is missing from
  the working directory can always be created in it.
\<close>

definition ensure_site :: "state \<Rightarrow> state" where
  "ensure_site st =
     (if path_exists (fs st) ''site'' then st
      else (case makedirs (fs st) (split_path ''site'') of
              None \<Rightarrow> st
            | Some r \<Rightarrow> st\<lparr>fs := r\<rparr>))"

text \<open>
  The body of the loop of \<open>copy_html_files\<close> for one file. What a step has done before a
  later step raises stays done: a directory that was created, a file that was removed.
\<close>

definition copy_one :: "string \<Rightarrow> state \<Rightarrow> state" where
  "copy_one html_file st =
     (let destination = join ''site'' (relpath html_file ''templates'');
          outdir = dirname destination
      in case (if path_exists (fs st) outdir then Some (fs st)
               else makedirs (fs st) (split_path outdir)) of
           None \<Rightarrow> print (ErrorCopying html_file destination) st
         | Some r1 \<Rightarrow>
             (case (if path_exists r1 destination then remove_at r1 (split_path destination)
                    else Some r1) of
                None \<Rightarrow> print (ErrorCopying html_file destination) (st\<lparr>fs := r1\<rparr>)
              | Some r2 \<Rightarrow>
                  (case copy r2 html_file destination of
                     None \<Rightarrow> print (ErrorCopying html_file destination) (st\<lparr>fs := r2\<rparr>)
                   | Some r3 \<Rightarrow> print (Copied html_file destination) (st\<lparr>fs := r3\<rparr>))))"

definition copy_html_files :: "state \<Rightarrow> state" where
  "copy_html_files st =
     (let st1 = ensure_site st
      in fold copy_one (glob_rec (fs st1) ''templates'' html_pat) st1)"

section \<open>render\_all\_templates\<close>

definition any_pat :: "pat list" where
  "any_pat = [Star, Lit CHR ''.'', Star]"

text \<open>The list comprehension that collects the templates.\<close>

definition template_files :: "node \<Rightarrow> string list" where
  "template_files root =
     filter (\<lambda>f. (endswith f ''.j2'' \<or> endswith f ''.jinja'') \<and> \<not> contains ''partials'' f)
       (glob_rec root ''templates'' any_pat)"

text \<open>The name of the output file: the four calls of \<open>replace\<close> on the relative path, in
  the order of the source.\<close>

definition outname :: "string \<Rightarrow> string" where
  "outname template_path =
     join ''site''
       (replace ''.jinja'' ''.html''
         (replace ''.html.jinja'' ''.html''
           (replace ''.j2'' ''.html''
             (replace ''.html.j2'' ''.html'' (relpath template_path ''templates'')))))"

text \<open>
  The body of the loop for one template. The engine's \<open>TemplateError\<close> has its own
  \<open>except\<close> clause; any other exception, an \<open>OSError\<close> of \<open>makedirs\<close> or \<open>open\<close>
  included, is reported as unexpected.
\<close>

definition render_one :: "'v libs \<Rightarrow> 'v ctx \<Rightarrow> string \<Rightarrow> state \<Rightarrow> state" where
  "render_one L data template_path st =
     (case render L (fs st) (relpath template_path ''templates'') data of
        Inl TemplateError \<Rightarrow> print (ErrorRendering template_path) st
      | Inl OtherError \<Rightarrow> print (UnexpectedError template_path) st
      | Inr output \<Rightarrow>
          (let outdir = dirname (outname template_path)
           in case (if path_exists (fs st) outdir then Some (fs st)
                    else makedirs (fs st) (split_path outdir)) of
                None \<Rightarrow> print (UnexpectedError template_path) st
              | Some r1 \<Rightarrow>
                  (case write_file r1 (outname template_path) output of
                     None \<Rightarrow> print (UnexpectedError template_path) (st\<lparr>fs := r1\<rparr>)
                   | Some r2 \<Rightarrow>
                       print (Rendered template_path (outname template_path)) (st\<lparr>fs := r2\<rparr>))))"

text \<open>The function from \<open>if not os.path.exists('site')\<close> to its end.\<close>

definition render_templates :: "'v libs \<Rightarrow> 'v ctx \<Rightarrow> state \<Rightarrow> state" where
  "render_templates L data st =
     (let st1 = ensure_site st
      in fold (render_one L data) (template_files (fs st1)) st1)"

text \<open>
  \<open>if trigger_file:\<close> holds for a non-empty string and for a non-empty list, of which the
  first element is taken. \<open>trigger_path\<close> is that path, or \<open>None\<close> when the test fails.
\<close>

fun trigger_path :: "trigger option \<Rightarrow> string option" where
  "trigger_path None = None"
| "trigger_path (Some (Path s)) = (if s = [] then None else Some s)"
| "trigger_path (Some (Paths [])) = None"
| "trigger_path (Some (Paths (s # ss))) = Some s"

definition render_all_templates ::
  "'v libs \<Rightarrow> 'v ctx \<Rightarrow> trigger option \<Rightarrow> state \<Rightarrow> state" where
  "render_all_templates L data trigger_file st =
     (case trigger_path trigger_file of
        None \<Rightarrow> render_templates L data st
      | Some t \<Rightarrow>
          (let st1 = print (RebuildTriggered t) st
           in if endswith t ''.html'' then copy_html_files st1
              else render_templates L data st1))"

section \<open>render\_all and the change handler\<close>

definition render_all :: "'v libs \<Rightarrow> trigger option \<Rightarrow> state \<Rightarrow> state" where
  "render_all L trigger_file st =
     (case load_data L (print (Calling trigger_file) st) of
        (data, st1) \<Rightarrow> render_all_templates L data trigger_file st1)"

record event =
  src_path :: string
  is_directory :: bool

definition concerns :: "event \<Rightarrow> bool" where
  "concerns ev =
     (\<not> is_directory ev
      \<and> (prefix ''templates/'' (src_path ev) \<or> prefix ''data/'' (src_path ev)))"

definition on_modified :: "'v libs \<Rightarrow> event \<Rightarrow> state \<Rightarrow> state" where
  "on_modified L ev st =
     (let st1 = print (Modified (src_path ev)) st
      in if concerns ev then render_all L (Some (Path (src_path ev))) st1 else st1)"

definition on_created :: "'v libs \<Rightarrow> event \<Rightarrow> state \<Rightarrow> state" where
  "on_created L ev st =
     (let st1 = print (Created (src_path ev)) st
      in if concerns ev then render_all L (Some (Path (src_path ev))) st1 else st1)"

definition on_deleted :: "'v libs \<Rightarrow> event \<Rightarrow> state \<Rightarrow> state" where
  "on_deleted L ev st =
     (let st1 = print (Deleted (src_path ev)) st
      in if concerns ev then render_all L (Some (Path (src_path ev))) st1 else st1)"

text \<open>The program starts with \<open>render_all()\<close>, without a trigger, before it watches.\<close>

definition initial_build :: "'v libs \<Rightarrow> state \<Rightarrow> state" where
  "initial_build L st = render_all L None st"

section \<open>What one data file contributes\<close>

text \<open>
  The theorems about \<open>load_data\<close> speak of the key/value pairs that a document makes
  \<open>update\<close> store (\<open>stored\<close>: all the items of a mapping, the pairs before the first
  element that is not one for another iterable) and of whether \<open>update\<close> returns
  (\<open>completes\<close>). \<open>attempt\<close> is one pass of the loop body seen from outside: the pairs
  stored and the exception caught, if any. A job is one iteration of either loop: the
  format of its loop and the path \<open>glob\<close> returned.
\<close>

fun stored_seq :: "'v item list \<Rightarrow> (string \<times> 'v) list" where
  "stored_seq [] = []"
| "stored_seq (KeyValue k v # its) = (k, v) # stored_seq its"
| "stored_seq (NotAPair # its) = []"

fun stored :: "'v doc \<Rightarrow> (string \<times> 'v) list" where
  "stored (Mapping kvs) = kvs"
| "stored (Sequence its) = stored_seq its"
| "stored Scalar = []"

fun completes :: "'v doc \<Rightarrow> bool" where
  "completes (Mapping kvs) = True"
| "completes (Sequence its) = (NotAPair \<notin> set its)"
| "completes Scalar = False"

datatype format = JSON | YAML

fun loader :: "'v libs \<Rightarrow> format \<Rightarrow> string \<Rightarrow> 'v doc option" where
  "loader L JSON = json_load L"
| "loader L YAML = yaml_load L"

definition attempt ::
  "(string \<Rightarrow> 'v doc option) \<Rightarrow> node \<Rightarrow> string \<Rightarrow> (string \<times> 'v) list \<times> cause option" where
  "attempt parse root f =
     (case read_file root f of
        None \<Rightarrow> ([], Some OpenFailed)
      | Some t \<Rightarrow>
          (case parse t of
             None \<Rightarrow> ([], Some ParseFailed)
           | Some x \<Rightarrow> (stored x, if completes x then None else Some MergeFailed)))"

fun report :: "string \<Rightarrow> cause option \<Rightarrow> line" where
  "report f None = Loaded f"
| "report f (Some c) = ErrorLoading f c"

definition json_files :: "node \<Rightarrow> string list" where
  "json_files root = glob_in root ''data'' json_pat"

definition yaml_files :: "node \<Rightarrow> string list" where
  "yaml_files root = glob_in root ''data'' yaml_pat"

definition jobs :: "node \<Rightarrow> (format \<times> string) list" where
  "jobs root = map (Pair JSON) (json_files root) @ map (Pair YAML) (yaml_files root)"

fun writes :: "'v libs \<Rightarrow> node \<Rightarrow> format \<times> string \<Rightarrow> (string \<times> 'v) list" where
  "writes L root (fmt, f) = fst (attempt (loader L fmt) root f)"

fun verdict :: "'v libs \<Rightarrow> node \<Rightarrow> format \<times> string \<Rightarrow> line" where
  "verdict L root (fmt, f) = report f (snd (attempt (loader L fmt) root f))"

section \<open>What a run prints\<close>

text \<open>
  The theorems about a whole run read its output: \<open>printed st st'\<close> is what was printed
  between two states, \<open>subject\<close> is the file a line is about, and the three predicates
  tell the lines of \<open>load_data\<close>, of \<open>copy_html_files\<close> and of the rendering loop apart.
\<close>

definition printed :: "state \<Rightarrow> state \<Rightarrow> line list" where
  "printed st st' = drop (length (out st)) (out st')"

fun subject :: "line \<Rightarrow> string" where
  "subject (Calling t) = []"
| "subject (RebuildTriggered p) = p"
| "subject (Loaded f) = f"
| "subject (ErrorLoading f c) = f"
| "subject (Copied f d) = f"
| "subject (ErrorCopying f d) = f"
| "subject (Rendered f d) = f"
| "subject (ErrorRendering f) = f"
| "subject (UnexpectedError f) = f"
| "subject (Modified p) = p"
| "subject (Created p) = p"
| "subject (Deleted p) = p"

fun is_load_line :: "line \<Rightarrow> bool" where
  "is_load_line (Loaded f) = True"
| "is_load_line (ErrorLoading f c) = True"
| "is_load_line l = False"

fun is_copy_line :: "line \<Rightarrow> bool" where
  "is_copy_line (Copied f d) = True"
| "is_copy_line (ErrorCopying f d) = True"
| "is_copy_line l = False"

fun is_render_line :: "line \<Rightarrow> bool" where
  "is_render_line (Rendered f d) = True"
| "is_render_line (ErrorRendering f) = True"
| "is_render_line (UnexpectedError f) = True"
| "is_render_line l = False"

section \<open>Directories that differ only below their subdirectories\<close>

text \<open>
  \<open>same_top es es'\<close>: two listings of a directory with the same names in the same order
  and the same files; an entry that is a directory in one is a directory in the other,
  with any contents.
\<close>

fun same_entry :: "string \<times> node \<Rightarrow> string \<times> node \<Rightarrow> bool" where
  "same_entry (n, File t) (n', File t') = (n = n' \<and> t = t')"
| "same_entry (n, Dir ds) (n', Dir ds') = (n = n')"
| "same_entry (n, File t) (n', Dir ds') = False"
| "same_entry (n, Dir ds) (n', File t') = False"

definition same_top :: "(string \<times> node) list \<Rightarrow> (string \<times> node) list \<Rightarrow> bool" where
  "same_top es es' = list_all2 same_entry es es'"

section \<open>The entries a recursive glob can reach\<close>

text \<open>
  \<open>found p es r\<close>: below a directory with the entries \<open>es\<close>, \<open>r\<close> is the relative path
  of an entry, a file or a directory, whose name matches \<open>p\<close> and is not hidden (unless
  \<open>p\<close> starts with a dot itself), and every directory on the way to it is not hidden.
\<close>

inductive found :: "pat list \<Rightarrow> (string \<times> node) list \<Rightarrow> string \<Rightarrow> bool" for p where
  here: "(n, c) \<in> set es \<Longrightarrow> pat_ishidden p \<or> \<not> ishidden n \<Longrightarrow> fnmatch p n \<Longrightarrow> found p es n"
| below: "(n, Dir ds) \<in> set es \<Longrightarrow> \<not> ishidden n \<Longrightarrow> found p ds r \<Longrightarrow> found p es (n @ ''/'' @ r)"

code_pred found .

section \<open>What one iteration does to the file system\<close>

text \<open>
  The theorems about a whole run describe each iteration of a loop by the files it
  leaves. \<open>state_at step xs s i\<close> is the state after the first \<open>i\<close> iterations over \<open>xs\<close>.
  \<open>can_write root p\<close>: the operating system lets the program create the directory of
  \<open>p\<close>, when it is missing, and then open \<open>p\<close> for writing. \<open>destination\<close> is where
  \<open>copy_html_files\<close> puts a file. \<open>join_segs\<close> puts a path together from its segments.
\<close>

definition state_at :: "('a \<Rightarrow> state \<Rightarrow> state) \<Rightarrow> 'a list \<Rightarrow> state \<Rightarrow> nat \<Rightarrow> state" where
  "state_at step xs s i = fold step (take i xs) s"

fun join_segs :: "string list \<Rightarrow> string" where
  "join_segs [] = []"
| "join_segs [s] = s"
| "join_segs (s # t # ss) = s @ CHR ''/'' # join_segs (t # ss)"

definition can_write :: "node \<Rightarrow> string \<Rightarrow> bool" where
  "can_write root p =
     (case (if path_exists root (dirname p) then Some root
            else makedirs root (split_path (dirname p))) of
        None \<Rightarrow> False
      | Some r \<Rightarrow> write_file r p [] \<noteq> None)"

definition destination :: "string \<Rightarrow> string" where
  "destination html_file = join ''site'' (relpath html_file ''templates'')"

text \<open>
  \<open>rendered L d f s s'\<close>: what the loop body of \<open>render_all_templates\<close> has to do for the
  template \<open>f\<close> and the context \<open>d\<close> between \<open>s\<close> and \<open>s'\<close>. When the engine raises, an
  error line and nothing else. When it returns a text and the output file can be
  written, the line \<open>Rendered\<close> and the text in the output file; when it cannot, an error
  line. In every case a file at another path keeps its text.
\<close>

definition rendered :: "'v libs \<Rightarrow> 'v ctx \<Rightarrow> string \<Rightarrow> state \<Rightarrow> state \<Rightarrow> bool" where
  "rendered L d f s s' =
     ((case render L (fs s) (relpath f ''templates'') d of
         Inl TemplateError \<Rightarrow> s' = print (ErrorRendering f) s
       | Inl OtherError \<Rightarrow> s' = print (UnexpectedError f) s
       | Inr output \<Rightarrow>
           if can_write (fs s) (outname f)
           then out s' = out s @ [Rendered f (outname f)]
                \<and> read_file (fs s') (outname f) = Some output
           else out s' = out s @ [UnexpectedError f])
      \<and> (\<forall>p u. p \<noteq> outname f \<longrightarrow> read_file (fs s) p = Some u
                  \<longrightarrow> read_file (fs s') p = Some u))"

text \<open>
  \<open>copied f s s'\<close>: what the loop body of \<open>copy_html_files\<close> has to do for \<open>f\<close>. When
  \<open>f\<close> is a file and its destination can be written, the line \<open>Copied\<close> and the text of
  \<open>f\<close> in the destination; otherwise an error line. A file at another path keeps its
  text.
\<close>

definition copied :: "string \<Rightarrow> state \<Rightarrow> state \<Rightarrow> bool" where
  "copied f s s' =
     ((if read_file (fs s) f \<noteq> None \<and> can_write (fs s) (destination f)
       then out s' = out s @ [Copied f (destination f)]
            \<and> read_file (fs s') (destination f) = read_file (fs s) f
       else out s' = out s @ [ErrorCopying f (destination f)])
      \<and> (\<forall>p u. p \<noteq> destination f \<longrightarrow> read_file (fs s) p = Some u
                  \<longrightarrow> read_file (fs s') p = Some u))"

section \<open>Example inputs\<close>

text \<open>
  Stand-ins for the libraries on the few texts the examples use: the parsers are tables
  from a text to the document it denotes (any other text is malformed), and the engine
  expands the one template \<open>{{ title }}\<close> to the title of the context and any other
  template to its own text; a template that is missing is a \<open>TemplateError\<close>.
\<close>

definition ex_json :: "string \<Rightarrow> string doc option" where
  "ex_json = map_of
     [(''{\"title\": \"J\"}'', Mapping [(''title'', ''J'')]),
      (''{\"author\": \"A\"}'', Mapping [(''author'', ''A'')]),
      (''[[\"a\", \"1\"], 5]'', Sequence [KeyValue ''a'' ''1'', NotAPair])]"

definition ex_yaml :: "string \<Rightarrow> string doc option" where
  "ex_yaml = map_of
     [(''title: Y'', Mapping [(''title'', ''Y'')]),
      (''author: A'', Mapping [(''author'', ''A'')]),
      ([], Scalar)]"

definition ex_render :: "node \<Rightarrow> string \<Rightarrow> string ctx \<Rightarrow> render_error + string" where
  "ex_render root rel d =
     (case read_file root (''templates/'' @ rel) of
        None \<Rightarrow> Inl TemplateError
      | Some t \<Rightarrow>
          if t = ''{{ title }}'' then Inr (case d ''title'' of None \<Rightarrow> [] | Some v \<Rightarrow> v)
          else Inr t)"

definition ex_libs :: "string libs" where
  "ex_libs = \<lparr>json_load = ex_json, yaml_load = ex_yaml, render = ex_render\<rparr>"

text \<open>A data directory that enumerates a YAML file before a JSON file with the same key.\<close>

definition ex_yaml_first :: state where
  "ex_yaml_first =
     \<lparr>fs = Dir [(''data'', Dir [(''b.yaml'', File ''title: Y''),
                                (''a.json'', File ''{\"title\": \"J\"}'')])],
      out = []\<rparr>"

text \<open>
  A data directory with a well-formed JSON file, a JSON file whose top level is the list
  \<open>[["a", "1"], 5]\<close> and an empty YAML file (\<open>yaml.safe_load\<close> returns \<open>None\<close> for it).
\<close>

definition ex_mixed :: state where
  "ex_mixed =
     \<lparr>fs = Dir [(''data'', Dir [(''a.json'', File ''{\"title\": \"J\"}''),
                                (''bad.json'', File ''[[\"a\", \"1\"], 5]''),
                                (''empty.yaml'', File [])])],
      out = []\<rparr>"

text \<open>Two data files with different keys, and the same directory enumerated the other way.\<close>

definition ex_disjoint :: state where
  "ex_disjoint =
     \<lparr>fs = Dir [(''data'', Dir [(''a.json'', File ''{\"title\": \"J\"}''),
                                (''b.json'', File ''{\"author\": \"A\"}'')])],
      out = []\<rparr>"

definition ex_disjoint_swapped :: state where
  "ex_disjoint_swapped =
     \<lparr>fs = Dir [(''data'', Dir [(''b.json'', File ''{\"author\": \"A\"}''),
                                (''a.json'', File ''{\"title\": \"J\"}'')])],
      out = []\<rparr>"

text \<open>
  A small site: one data file, the template \<open>x/a.html.j2\<close>, a partial, a plain HTML
  page, two templates with unusual names and a hidden one.
\<close>

definition ex_site :: state where
  "ex_site =
     \<lparr>fs = Dir [(''data'', Dir [(''a.json'', File ''{\"title\": \"J\"}'')]),
                (''templates'',
                   Dir [(''x'', Dir [(''a.html.j2'', File ''{{ title }}'')]),
                        (''partials'', Dir [(''_nav.j2'', File ''nav'')]),
                        (''about.html'', File ''about''),
                        (''nonpartials.j2'', File ''text''),
                        (''a.jinja.j2'', File ''text''),
                        (''.draft.j2'', File ''text'')])],
      out = []\<rparr>"

text \<open>A data directory with a JSON file in a subdirectory, and the same without that file.\<close>

definition ex_nested :: state where
  "ex_nested =
     \<lparr>fs = Dir [(''data'', Dir [(''a.json'', File ''{\"author\": \"A\"}''),
                                (''sub'', Dir [(''c.json'', File ''{\"title\": \"J\"}'')])])],
      out = []\<rparr>"

definition ex_nested_emptied :: state where
  "ex_nested_emptied =
     \<lparr>fs = Dir [(''data'', Dir [(''a.json'', File ''{\"author\": \"A\"}''),
                                (''sub'', Dir [])])],
      out = []\<rparr>"

text \<open>
  A data directory in which a JSON file and a YAML file give the same key, followed by a
  YAML file with another key.
\<close>

definition ex_collision :: state where
  "ex_collision =
     \<lparr>fs = Dir [(''data'', Dir [(''a.json'', File ''{\"title\": \"J\"}''),
                                (''b.yaml'', File ''title: Y''),
                                (''c.yaml'', File ''author: A'')])],
      out = []\<rparr>"

section \<open>Properties of load\_data\<close>

lemma if_upd: "(\<lambda>a. if a = k then v else d a) = d(k := v)"
  by auto

lemma upd_add: "d ++ ([k \<mapsto> v] ++ m) = d(k \<mapsto> v) ++ m"
  by (simp add: map_add_assoc[symmetric])

lemma fold_store: "fold (\<lambda>(k, v) m. m(k \<mapsto> v)) kvs d = d ++ map_of (rev kvs)"
  by (induction kvs arbitrary: d) (auto simp: upd_add)

lemma update_seq_eq:
  "update_seq d its = (d ++ map_of (rev (stored_seq its)), NotAPair \<notin> set its)"
proof (induction its arbitrary: d)
  case Nil
  then show ?case by simp
next
  case (Cons it its)
  then show ?case by (cases it) (simp_all add: upd_add if_upd)
qed

lemma update_eq: "update d x = (d ++ map_of (rev (stored x)), completes x)"
  by (cases x) (simp_all add: fold_store update_seq_eq)

lemma fs_print [simp]: "fs (print l st) = fs st"
  by (simp add: print_def)

lemma out_print [simp]: "out (print l st) = out st @ [l]"
  by (simp add: print_def)

lemma load_file_eq:
  "load_file parse f (d, st) =
     (d ++ map_of (rev (fst (attempt parse (fs st) f))),
      print (report f (snd (attempt parse (fs st) f))) st)"
  by (simp add: load_file_def attempt_def update_eq split: option.splits)

lemma fold_load_file:
  "fold (load_file parse) fl (d, st) =
     (d ++ map_of (rev (concat (map (\<lambda>f. fst (attempt parse (fs st) f)) fl))),
      st\<lparr>out := out st @ map (\<lambda>f. report f (snd (attempt parse (fs st) f))) fl\<rparr>)"
proof (induction fl arbitrary: d st)
  case Nil
  then show ?case by simp
next
  case (Cons f fl)
  show ?case
    by (simp add: load_file_eq Cons.IH print_def map_add_assoc)
qed

lemma load_data_eq:
  "load_data L st =
     (map_of (rev (concat (map (writes L (fs st)) (jobs (fs st))))),
      st\<lparr>out := out st @ map (verdict L (fs st)) (jobs (fs st))\<rparr>)"
  by (simp add: load_data_def Let_def fold_load_file jobs_def json_files_def yaml_files_def
      comp_def map_add_assoc)

lemma map_of_rev_concat_None:
  assumes "\<forall>j\<in>set js. k \<notin> fst ` set (W j)"
  shows "map_of (rev (concat (map W js))) k = None"
  using assms by (auto simp: map_of_eq_None_iff)

lemma ex_mixed_jobs:
  "jobs (fs ex_mixed) = [(JSON, ''data/a.json''), (JSON, ''data/bad.json''), (YAML, ''data/empty.yaml'')]"
  by (simp add: jobs_def yaml_files_def json_files_def ex_mixed_def glob_in_def glob1_def
        yaml_pat_def json_pat_def)

lemma ex_mixed_attempts:
  "attempt (json_load ex_libs) (fs ex_mixed) ''data/a.json'' = ([(''title'', ''J'')], None)"
  "attempt (json_load ex_libs) (fs ex_mixed) ''data/bad.json'' = ([(''a'', ''1'')], Some MergeFailed)"
  "attempt (yaml_load ex_libs) (fs ex_mixed) ''data/empty.yaml'' = ([], Some MergeFailed)"
  by (simp_all add: attempt_def read_file_def ex_mixed_def ex_libs_def ex_json_def ex_yaml_def)

lemma lookup_append:
  "lookup n (a @ b) = (case lookup n a of None \<Rightarrow> None | Some c \<Rightarrow> lookup c b)"
proof (induction a arbitrary: n)
  case Nil
  then show ?case by simp
next
  case (Cons s a)
  then show ?case by (cases n) (simp_all split: option.splits)
qed

lemma split_path_not_Nil [simp]: "split_path s \<noteq> []"
  by (induction s) (auto split: list.splits)

lemma split_path_no_slash: "CHR ''/'' \<notin> set s \<Longrightarrow> split_path s = [s]"
  by (induction s) auto

lemma split_path_append:
  "CHR ''/'' \<notin> set a \<Longrightarrow> split_path (a @ CHR ''/'' # b) = a # split_path b"
  by (induction a) auto

lemma split_path_data: "split_path (''data'' @ ''/'' @ n) = ''data'' # split_path n"
  using split_path_append [of "''data''" n] by simp

lemma read_file_data:
  assumes "lookup root [''data''] = Some (Dir es)"
  shows "read_file root (''data'' @ ''/'' @ n) =
           (case lookup (Dir es) (split_path n) of Some (File t) \<Rightarrow> Some t | _ \<Rightarrow> None)"
proof -
  have "lookup root (''data'' # split_path n) = lookup (Dir es) (split_path n)"
    using lookup_append [of root "[''data'']" "split_path n"] assms by simp
  then show ?thesis
    unfolding read_file_def split_path_data by simp
qed

lemma lookup_cong_map_of:
  assumes "map_of es = map_of es'" and "ss \<noteq> []"
  shows "lookup (Dir es) ss = lookup (Dir es') ss"
  using assms by (cases ss) simp_all

lemma union_of_disjoint:
  assumes "\<forall>j1\<in>set js. \<forall>j2\<in>set js. j1 \<noteq> j2 \<longrightarrow> fst ` set (W j1) \<inter> fst ` set (W j2) = {}"
  shows "map_of (rev (concat (map W js))) k = Some v
         \<longleftrightarrow> (\<exists>j\<in>set js. map_of (rev (W j)) k = Some v)"
  using assms
proof (induction js arbitrary: v)
  case Nil
  then show ?case by simp
next
  case (Cons j js)
  have IH: "map_of (rev (concat (map W js))) k = Some v
         \<longleftrightarrow> (\<exists>j\<in>set js. map_of (rev (W j)) k = Some v)" for v
    using Cons.IH [of v] Cons.prems by simp
  show ?case
  proof (cases "map_of (rev (concat (map W js))) k")
    case None
    then show ?thesis using IH by (auto simp: map_add_def)
  next
    case (Some v')
    then obtain j' where j': "j' \<in> set js" "map_of (rev (W j')) k = Some v'"
      using IH by blast
    then have kj': "k \<in> fst ` set (W j')"
      by (metis map_of_eq_None_iff option.distinct(1) set_rev)
    have "v = v'" if "map_of (rev (W j)) k = Some v"
    proof -
      from that have "k \<in> fst ` set (W j)"
        by (metis map_of_eq_None_iff option.distinct(1) set_rev)
      with kj' have "j = j'"
        using Cons.prems j'(1) by (metis disjoint_iff list.set_intros(1) list.set_intros(2))
      with that j'(2) show ?thesis by simp
    qed
    then have new: "v = v'" if "\<exists>j''\<in>set (j # js). map_of (rev (W j'')) k = Some v"
      using that Some IH [of v] by auto
    have lhs: "map_of (rev (concat (map W (j # js)))) k = Some v'"
      using Some by (simp add: map_add_def)
    show ?thesis
    proof
      assume "map_of (rev (concat (map W (j # js)))) k = Some v"
      with lhs have "v = v'" by simp
      with j' show "\<exists>j''\<in>set (j # js). map_of (rev (W j'')) k = Some v" by auto
    next
      assume "\<exists>j''\<in>set (j # js). map_of (rev (W j'')) k = Some v"
      then have "v = v'" by (rule new)
      with lhs show "map_of (rev (concat (map W (j # js)))) k = Some v" by simp
    qed
  qed
qed

lemma set_glob1_cong: "set (map fst es') = set (map fst es) \<Longrightarrow> set (glob1 es' p) = set (glob1 es p)"
  by (auto simp: glob1_def)

lemma jobs_data:
  assumes "lookup root [''data''] = Some (Dir es)"
  shows "jobs root = map (\<lambda>n. (JSON, ''data'' @ ''/'' @ n)) (glob1 es json_pat)
                   @ map (\<lambda>n. (YAML, ''data'' @ ''/'' @ n)) (glob1 es yaml_pat)"
  using assms by (simp add: jobs_def json_files_def yaml_files_def glob_in_def comp_def)

lemma attempt_data:
  assumes "lookup root [''data''] = Some (Dir es)"
  shows "attempt parse root (''data'' @ ''/'' @ n) =
           (case (case lookup (Dir es) (split_path n) of Some (File t) \<Rightarrow> Some t | _ \<Rightarrow> None) of
              None \<Rightarrow> ([], Some OpenFailed)
            | Some t \<Rightarrow>
                (case parse t of
                   None \<Rightarrow> ([], Some ParseFailed)
                 | Some x \<Rightarrow> (stored x, if completes x then None else Some MergeFailed)))"
  unfolding attempt_def read_file_data [OF assms] ..

section \<open>Properties of a run\<close>

lemma fold_prints:
  assumes step: "\<And>f s. \<exists>l. out (step f s) = out s @ [l] \<and> P l \<and> subject l = f"
  shows "\<exists>ls. out (fold step fl s) = out s @ ls \<and> list_all P ls \<and> map subject ls = fl"
proof (induction fl arbitrary: s)
  case Nil
  then show ?case by simp
next
  case (Cons f fl)
  from step obtain l where l: "out (step f s) = out s @ [l]" "P l" "subject l = f"
    by blast
  from Cons.IH [of "step f s"] obtain ls where
    ls: "out (fold step fl (step f s)) = out (step f s) @ ls" "list_all P ls" "map subject ls = fl"
    by blast
  show ?case
    using l ls by (intro exI [of _ "l # ls"]) simp
qed

lemma copy_one_prints:
  "\<exists>l. out (copy_one f s) = out s @ [l] \<and> is_copy_line l \<and> subject l = f"
  by (simp add: copy_one_def Let_def split: option.splits)

lemma render_one_prints:
  "\<exists>l. out (render_one L d f s) = out s @ [l] \<and> is_render_line l \<and> subject l = f"
  by (simp add: render_one_def Let_def split: option.splits sum.splits render_error.splits)

lemma out_ensure_site [simp]: "out (ensure_site st) = out st"
  by (simp add: ensure_site_def split: option.splits)

lemma lookup_ensure_site:
  assumes "s \<noteq> ''site''"
  shows "lookup (fs (ensure_site st)) (s # ss) = lookup (fs st) (s # ss)"
proof (cases "fs st")
  case (File t)
  then show ?thesis
    by (simp add: ensure_site_def path_exists_def)
next
  case (Dir es)
  then show ?thesis
    using assms
    by (auto simp: ensure_site_def path_exists_def map_add_def split: option.splits)
qed

lemma glob_rec_ensure_site [simp]:
  "glob_rec (fs (ensure_site st)) ''templates'' p = glob_rec (fs st) ''templates'' p"
  by (simp add: glob_rec_def lookup_ensure_site)

lemma template_files_ensure_site [simp]:
  "template_files (fs (ensure_site st)) = template_files (fs st)"
  by (simp add: template_files_def)

lemma copy_html_files_prints:
  "\<exists>ls. out (copy_html_files st) = out st @ ls \<and> list_all is_copy_line ls
        \<and> map subject ls = glob_rec (fs st) ''templates'' html_pat"
  using fold_prints [of copy_one is_copy_line "glob_rec (fs st) ''templates'' html_pat" "ensure_site st",
      OF copy_one_prints]
  by (simp add: copy_html_files_def Let_def)

lemma render_templates_prints:
  "\<exists>ls. out (render_templates L d st) = out st @ ls \<and> list_all is_render_line ls
        \<and> map subject ls = template_files (fs st)"
  using fold_prints [of "render_one L d" is_render_line "template_files (fs st)" "ensure_site st",
      OF render_one_prints]
  by (simp add: render_templates_def Let_def)

lemma verdict_line [simp]:
  "is_load_line (verdict L root j)" "\<not> is_copy_line (verdict L root j)"
  "\<not> is_render_line (verdict L root j)" "subject (verdict L root j) = snd j"
  by (cases j; cases "snd (attempt (loader L (fst j)) root (snd j))"; simp)+

lemma filter_all: "list_all P ls \<Longrightarrow> filter P ls = ls"
  by (induction ls) auto

lemma filter_none: "list_all P ls \<Longrightarrow> (\<And>l. P l \<Longrightarrow> \<not> Q l) \<Longrightarrow> filter Q ls = []"
  by (induction ls) auto

lemma render_not_other: "is_render_line l \<Longrightarrow> \<not> is_load_line l \<and> \<not> is_copy_line l"
  by (cases l) simp_all

lemma copy_not_other: "is_copy_line l \<Longrightarrow> \<not> is_load_line l \<and> \<not> is_render_line l"
  by (cases l) simp_all

lemma filter_verdicts [simp]:
  "filter is_load_line (map (verdict L root) js) = map (verdict L root) js"
  "filter is_copy_line (map (verdict L root) js) = []"
  "filter is_render_line (map (verdict L root) js) = []"
  by (induction js) simp_all

lemma printed_append: "out st' = out st @ ls \<Longrightarrow> printed st st' = ls"
  by (simp add: printed_def)

lemma ex_site_templates:
  "template_files (fs ex_site) = [''templates/a.jinja.j2'', ''templates/x/a.html.j2'']"
  by code_simp

lemma ex_site_html: "glob_rec (fs ex_site) ''templates'' html_pat = [''templates/about.html'']"
  by code_simp

lemma same_entry_fst: "same_entry e e' \<Longrightarrow> fst e = fst e'"
  by (cases "(e, e')" rule: same_entry.cases) simp_all

lemma same_top_names: "same_top es es' \<Longrightarrow> map fst es = map fst es'"
  unfolding same_top_def by (induction rule: list_all2_induct) (auto dest: same_entry_fst)

lemma same_top_glob1: "same_top es es' \<Longrightarrow> glob1 es p = glob1 es' p"
  by (simp add: glob1_def same_top_names)

lemma same_top_file:
  "same_top es es' \<Longrightarrow>
     (case map_of es n of Some (File t) \<Rightarrow> Some t | _ \<Rightarrow> None)
       = (case map_of es' n of Some (File t) \<Rightarrow> Some t | _ \<Rightarrow> None)"
  unfolding same_top_def
proof (induction rule: list_all2_induct)
  case Nil
  then show ?case by simp
next
  case (Cons e es e' es')
  then show ?case
    by (cases "(e, e')" rule: same_entry.cases) auto
qed

lemma lookup_single:
  "lookup (Dir es) [n] = map_of es n"
  by (simp split: option.splits)

lemma glob1_names: "n \<in> set (glob1 es p) \<Longrightarrow> n \<in> fst ` set es"
  by (auto simp: glob1_def split: if_splits)

lemma jobs_data_names:
  assumes "lookup root [''data''] = Some (Dir es)" and "j \<in> set (jobs root)"
  shows "\<exists>fmt n. j = (fmt, ''data'' @ ''/'' @ n) \<and> n \<in> fst ` set es"
proof -
  from assms obtain fmt n where "j = (fmt, ''data'' @ ''/'' @ n)"
    and "n \<in> set (glob1 es json_pat) \<or> n \<in> set (glob1 es yaml_pat)"
    unfolding jobs_data [OF assms(1)] by auto
  then show ?thesis
    using glob1_names by blast
qed

section \<open>Properties of the recursive glob\<close>



lemma found_Nil [simp]: "\<not> found p [] r"
  by (auto elim: found.cases)


lemma fnmatch_Star [simp]: "fnmatch [Star] s"
  by (induction s) simp_all

lemma fnmatch_any_pat: "fnmatch any_pat n \<longleftrightarrow> CHR ''.'' \<in> set n"
  unfolding any_pat_def by (induction n) auto

lemma contains_iff_sublist: "contains sub s \<longleftrightarrow> sublist sub s"
  by (induction s) (auto simp: sublist_Cons_right)


section \<open>Properties of replace\<close>

lemma endswith_iff_suffix: "endswith s suf \<longleftrightarrow> suffix suf s"
  by (simp add: endswith_def suffix_to_prefix)

lemma replace_absent: "\<not> sublist (a # as) s \<Longrightarrow> replace (a # as) new s = s"
  by (induction s) (auto simp: sublist_Cons_right)

lemma prefix_take: "prefix us zs \<Longrightarrow> length us \<le> k \<Longrightarrow> prefix us (take k zs)"
  by (auto simp: prefix_def)

lemma prefix_append_take: "prefix xs (ys @ zs) \<Longrightarrow> prefix xs (ys @ take (length xs) zs)"
proof -
  assume "prefix xs (ys @ zs)"
  then consider "prefix xs ys" | us where "xs = ys @ us" "prefix us zs"
    by (auto simp: prefix_append)
  then show ?thesis
  proof cases
    case 1
    then show ?thesis by (simp add: prefix_append)
  next
    case 2
    then have "prefix us (take (length xs) zs)"
      by (intro prefix_take) simp_all
    then show ?thesis using 2 by simp
  qed
qed

lemma replace_append:
  "\<not> sublist (a # as) (s @ take (length as) t)
   \<Longrightarrow> replace (a # as) new (s @ t) = s @ replace (a # as) new t"
proof (induction s)
  case Nil
  then show ?case by simp
next
  case (Cons c s)
  then have np: "\<not> prefix (a # as) (c # s @ take (length as) t)"
    and ns: "\<not> sublist (a # as) (s @ take (length as) t)"
    by (simp_all add: sublist_Cons_right)
  have "\<not> prefix (a # as) (c # s @ t)"
  proof
    assume "prefix (a # as) (c # s @ t)"
    then have "a = c" "prefix as (s @ t)" by simp_all
    then have "prefix as (s @ take (length as) t)" by (simp add: prefix_append_take)
    with \<open>a = c\<close> np show False by simp
  qed
  then show ?case
    using Cons.IH [OF ns] by auto
qed

lemma sublist_tail: "sublist (u @ v) xs \<Longrightarrow> sublist v xs"
proof -
  assume "sublist (u @ v) xs"
  then obtain ps ss where "xs = ps @ (u @ v) @ ss"
    by (auto simp: sublist_def)
  then have "xs = (ps @ u) @ v @ ss" by simp
  then show ?thesis
    unfolding sublist_def by blast
qed

lemma no_straddle:
  assumes dot: "CHR ''.'' \<notin> set as"
    and s: "\<not> sublist (CHR ''.'' # as) s"
    and t: "\<not> sublist (CHR ''.'' # as) (CHR ''.'' # t)"
  shows "\<not> sublist (CHR ''.'' # as) (s @ CHR ''.'' # t)"
proof
  assume "sublist (CHR ''.'' # as) (s @ CHR ''.'' # t)"
  with s t obtain xs1 xs2 where x: "CHR ''.'' # as = xs1 @ xs2" "suffix xs1 s" "prefix xs2 (CHR ''.'' # t)"
    by (auto simp: sublist_append)
  show False
  proof (cases xs1)
    case Nil
    with x have "prefix (CHR ''.'' # as) (CHR ''.'' # t)" by simp
    with t show False by (meson prefix_imp_sublist)
  next
    case (Cons y ys)
    with x(1) have as: "as = ys @ xs2" by simp
    show False
    proof (cases xs2)
      case Nil
      with x(1,2) have "suffix (CHR ''.'' # as) s" by simp
      with s show False by (meson suffix_imp_sublist)
    next
      case (Cons z zs)
      with x(3) have "z = CHR ''.''" by simp
      with as Cons dot show False by simp
    qed
  qed
qed

lemma j2_then_dot_j: "\<not> sublist ''.j2'' s \<Longrightarrow> \<not> sublist ''.j2'' (s @ ''.j'')"
  using no_straddle [of "''j2''" s "''j''"] by (simp add: sublist_Cons_right)

lemma j2_then_html: "\<not> sublist ''.j2'' s \<Longrightarrow> \<not> sublist ''.j2'' (s @ ''.html'')"
  using no_straddle [of "''j2''" s "''html''"] by (simp add: sublist_Cons_right)

lemma j2_then_jinja: "\<not> sublist ''.j2'' s \<Longrightarrow> \<not> sublist ''.j2'' (s @ ''.jinja'')"
  using no_straddle [of "''j2''" s "''jinja''"] by (simp add: sublist_Cons_right)

lemma jinja_then_dot_jinj: "\<not> sublist ''.jinja'' s \<Longrightarrow> \<not> sublist ''.jinja'' (s @ ''.jinj'')"
  using no_straddle [of "''jinja''" s "''jinj''"] by (simp add: sublist_Cons_right)

lemma jinja_then_html: "\<not> sublist ''.jinja'' s \<Longrightarrow> \<not> sublist ''.jinja'' (s @ ''.html'')"
  using no_straddle [of "''jinja''" s "''html''"] by (simp add: sublist_Cons_right)

lemma no_straddle_ext:
  assumes dot: "CHR ''.'' \<notin> set as" and u: "u \<noteq> []"
    and s: "\<not> sublist (CHR ''.'' # as) s"
    and e: "\<not> suffix u s"
  shows "\<not> sublist (u @ CHR ''.'' # as) (s @ CHR ''.'' # as)"
proof
  let ?v = "CHR ''.'' # as"
  assume a: "sublist (u @ ?v) (s @ ?v)"
  have "\<not> sublist (u @ ?v) s"
    using s sublist_tail by blast
  moreover have "\<not> sublist (u @ ?v) ?v"
    using u sublist_length_le [of "u @ ?v" ?v] by auto
  ultimately obtain xs1 xs2 where x: "u @ ?v = xs1 @ xs2" "suffix xs1 s" "prefix xs2 ?v"
    using a unfolding sublist_append by blast
  from x(1) consider w where "u = xs1 @ w" "w @ ?v = xs2" | w where "u @ w = xs1" "?v = w @ xs2"
    unfolding append_eq_append_conv2 by blast
  then show False
  proof cases
    case 1
    with x(3) have "length (w @ ?v) \<le> length ?v"
      using prefix_length_le by blast
    then have "w = []" by simp
    with 1 x(2) e show False by simp
  next
    case 2
    show False
    proof (cases "w = []")
      case True
      with 2 x(2) e show False by simp
    next
      case False
      then obtain w' where w: "w = CHR ''.'' # w'" and as: "as = w' @ xs2"
        using 2(2) by (cases w) auto
      show False
      proof (cases xs2)
        case Nil
        with 2 x(2) have "suffix (u @ ?v) s" by simp
        then have "sublist (u @ ?v) s" by (rule suffix_imp_sublist)
        then show False using s sublist_tail by blast
      next
        case (Cons z zs)
        with x(3) have "z = CHR ''.''" by simp
        with as Cons dot show False by simp
      qed
    qed
  qed
qed

lemma outname_strip:
  assumes suf: "suf = ''.j2'' \<or> suf = ''.jinja''"
    and j2: "\<not> sublist ''.j2'' stem" and jinja: "\<not> sublist ''.jinja'' stem"
  shows "replace ''.jinja'' ''.html''
           (replace ''.html.jinja'' ''.html''
             (replace ''.j2'' ''.html''
               (replace ''.html.j2'' ''.html'' (stem @ suf))))
         = (if suffix ''.html'' stem then stem else stem @ ''.html'')"
proof -
  have hj2: "\<not> sublist ''.html.j2'' x" if "\<not> sublist ''.j2'' x" for x
    using that sublist_tail [of "''.html''" "''.j2''" x] by auto
  have hjinja: "\<not> sublist ''.html.jinja'' x" if "\<not> sublist ''.jinja'' x" for x
    using that sublist_tail [of "''.html''" "''.jinja''" x] by auto
  show ?thesis
  proof (cases "suffix ''.html'' stem")
    case True
    then obtain s' where s': "stem = s' @ ''.html''"
      by (auto simp: suffix_def)
    from suf show ?thesis
    proof
      assume "suf = ''.j2''"
      have "\<not> sublist ''.html.j2'' (s' @ ''.html.j'')"
        using hj2 [OF j2_then_dot_j [OF j2]] by (simp add: s')
      then have r1: "replace ''.html.j2'' ''.html'' (s' @ ''.html.j2'') = s' @ ''.html''"
        using replace_append [of "CHR ''.''" "''html.j2''" s' "''.html.j2''" "''.html''"] by simp
      show ?thesis
        using True j2 jinja hjinja [OF jinja]
        by (simp add: \<open>suf = ''.j2''\<close> s' r1 replace_absent)
    next
      assume "suf = ''.jinja''"
      have n2: "\<not> sublist ''.j2'' (stem @ ''.jinja'')"
        using j2_then_jinja [OF j2] .
      have "\<not> sublist ''.html.jinja'' (s' @ ''.html.jinj'')"
        using hjinja [OF jinja_then_dot_jinj [OF jinja]] by (simp add: s')
      then have r3: "replace ''.html.jinja'' ''.html'' (s' @ ''.html.jinja'') = s' @ ''.html''"
        using replace_append [of "CHR ''.''" "''html.jinja''" s' "''.html.jinja''" "''.html''"] by simp
      show ?thesis
        using True n2 hj2 [OF n2] jinja
        by (simp add: \<open>suf = ''.jinja''\<close> s' r3 replace_absent)
    qed
  next
    case False
    from suf show ?thesis
    proof
      assume "suf = ''.j2''"
      have "\<not> sublist ''.html.j2'' (stem @ ''.j2'')"
        using no_straddle_ext [of "''j2''" "''.html''" stem] j2 False by simp
      then have r1: "replace ''.html.j2'' ''.html'' (stem @ ''.j2'') = stem @ ''.j2''"
        using replace_append [of "CHR ''.''" "''html.j2''" stem "''.j2''" "''.html''"] by simp
      have r2: "replace ''.j2'' ''.html'' (stem @ ''.j2'') = stem @ ''.html''"
        using replace_append [of "CHR ''.''" "''j2''" stem "''.j2''" "''.html''"] j2_then_dot_j [OF j2] by simp
      have n: "\<not> sublist ''.jinja'' (stem @ ''.html'')"
        using jinja_then_html [OF jinja] .
      show ?thesis
        using False n hjinja [OF n]
        by (simp add: \<open>suf = ''.j2''\<close> r1 r2 replace_absent)
    next
      assume "suf = ''.jinja''"
      have n2: "\<not> sublist ''.j2'' (stem @ ''.jinja'')"
        using j2_then_jinja [OF j2] .
      have "\<not> sublist ''.html.jinja'' (stem @ ''.jinja'')"
        using no_straddle_ext [of "''jinja''" "''.html''" stem] jinja False by simp
      then have r3: "replace ''.html.jinja'' ''.html'' (stem @ ''.jinja'') = stem @ ''.jinja''"
        using replace_append [of "CHR ''.''" "''html.jinja''" stem "''.jinja''" "''.html''"] by simp
      have r4: "replace ''.jinja'' ''.html'' (stem @ ''.jinja'') = stem @ ''.html''"
        using replace_append [of "CHR ''.''" "''jinja''" stem "''.jinja''" "''.html''"] jinja_then_dot_jinj [OF jinja] by simp
      show ?thesis
        using False n2 hj2 [OF n2]
        by (simp add: \<open>suf = ''.jinja''\<close> r3 r4 replace_absent)
    qed
  qed
qed

section \<open>Properties of writing\<close>

lemma map_of_put: "map_of (put s c es) s = Some c"
  by (induction es) auto

lemma lookup_write_at: "write_at n ss t = Some r \<Longrightarrow> lookup r ss = Some (File t)"
proof (induction n ss t arbitrary: r rule: write_at.induct)
  case (4 es s ss t)
  show ?case
  proof (cases "map_of es s")
    case None
    with 4(2) show ?thesis by (auto simp: map_add_def split: if_splits)
  next
    case (Some c)
    with 4(2) obtain c' where c': "write_at c ss t = Some c'" "r = Dir (put s c' es)"
      by (auto split: option.splits)
    with 4(1) [OF Some c'(1)] show ?thesis by (simp add: map_of_put)
  qed
qed simp_all

lemma read_after_write: "write_file root p t = Some r \<Longrightarrow> read_file r p = Some t"
  by (simp add: write_file_def read_file_def lookup_write_at)

lemma render_one_rendered:
  assumes "out (render_one L d f st) = out st @ [Rendered f o']"
  shows "o' = outname f \<and> (\<exists>output. render L (fs st) (relpath f ''templates'') d = Inr output
            \<and> read_file (fs (render_one L d f st)) o' = Some output)"
  using assms
  by (auto simp: render_one_def Let_def read_after_write
      split: sum.splits render_error.splits option.splits if_splits)

section \<open>Properties of one iteration\<close>

lemma map_of_put_other: "s' \<noteq> s \<Longrightarrow> map_of (put s c es) s' = map_of es s'"
  by (induction es) auto

lemma join_segs_push: "join_segs ((c # x) # xs) = c # join_segs (x # xs)"
  by (cases xs) simp_all

lemma join_split: "join_segs (split_path s) = s"
proof (induction s)
  case Nil
  then show ?case by simp
next
  case (Cons c cs)
  obtain x xs where x: "split_path cs = x # xs"
    by (cases "split_path cs") simp_all
  with Cons show ?case by (auto simp: join_segs_push)
qed

lemma split_path_inject: "split_path a = split_path b \<Longrightarrow> a = b"
  by (metis join_split)

lemma keep_write:
  "write_at n ss t = Some r \<Longrightarrow> ss' \<noteq> ss \<Longrightarrow> lookup n ss' = Some (File u)
   \<Longrightarrow> lookup r ss' = Some (File u)"
proof (induction n ss t arbitrary: r ss' rule: write_at.induct)
  case (1 v t)
  then show ?case by (cases ss') simp_all
next
  case (2 es t)
  then show ?case by simp
next
  case (3 v s ss t)
  then show ?case by simp
next
  case (4 es s ss t)
  from 4(4) obtain s' rest' where ss': "ss' = s' # rest'"
    by (cases ss') simp_all
  show ?case
  proof (cases "map_of es s")
    case None
    with 4(2) have r: "r = Dir (es @ [(s, File t)])" and "ss = []"
      by (auto split: if_splits)
    from 4(4) None have "s' \<noteq> s"
      by (auto simp: ss' split: option.splits)
    then show ?thesis
      using 4(4) by (simp add: r ss' map_add_def split: option.splits)
  next
    case (Some c)
    with 4(2) obtain c' where c': "write_at c ss t = Some c'" and r: "r = Dir (put s c' es)"
      by (auto split: option.splits)
    show ?thesis
    proof (cases "s' = s")
      case True
      with 4(3) have "rest' \<noteq> ss" by (simp add: ss')
      moreover from 4(4) True Some have "lookup c rest' = Some (File u)"
        by (simp add: ss')
      ultimately have "lookup c' rest' = Some (File u)"
        using "4.IH" [OF Some c'] by blast
      then show ?thesis
        by (simp add: r ss' True map_of_put)
    next
      case False
      then show ?thesis
        using 4(4) by (simp add: r ss' map_of_put_other)
    qed
  qed
qed

lemma keep_makedirs:
  "makedirs n ss = Some r \<Longrightarrow> lookup n ss' = Some (File u) \<Longrightarrow> lookup r ss' = Some (File u)"
proof (induction n ss arbitrary: r ss' rule: makedirs.induct)
  case (1 n)
  then show ?case by simp
next
  case (2 t s ss)
  then show ?case by simp
next
  case (3 es s ss)
  from 3(3) obtain s' rest' where ss': "ss' = s' # rest'"
    by (cases ss') simp_all
  show ?case
  proof (cases "map_of es s")
    case None
    with 3(2) have r: "r = Dir (es @ [(s, fresh ss)])"
      by simp
    from 3(3) None have "s' \<noteq> s"
      by (auto simp: ss' split: option.splits)
    then show ?thesis
      using 3(3) by (simp add: r ss' map_add_def split: option.splits)
  next
    case (Some c)
    with 3(2) obtain c' where c': "makedirs c ss = Some c'" and r: "r = Dir (put s c' es)"
      by (auto split: option.splits)
    show ?thesis
    proof (cases "s' = s")
      case True
      from 3(3) True Some have "lookup c rest' = Some (File u)"
        by (simp add: ss')
      then have "lookup c' rest' = Some (File u)"
        using "3.IH" [OF Some c'] by blast
      then show ?thesis
        by (simp add: r ss' True map_of_put)
    next
      case False
      then show ?thesis
        using 3(3) by (simp add: r ss' map_of_put_other)
    qed
  qed
qed

lemma map_of_filter_other:
  "s' \<noteq> s \<Longrightarrow> map_of (filter (\<lambda>e. fst e \<noteq> s) es) s' = map_of es s'"
  by (induction es) auto

lemma map_of_filter_same: "map_of (filter (\<lambda>e. fst e \<noteq> s) es) s = None"
  by (induction es) auto

lemma keep_remove:
  "remove_at n ss = Some r \<Longrightarrow> ss' \<noteq> ss \<Longrightarrow> lookup n ss' = Some (File u)
   \<Longrightarrow> lookup r ss' = Some (File u)"
proof (induction n ss arbitrary: r ss' rule: remove_at.induct)
  case (1 n)
  then show ?case by simp
next
  case (2 t s ss)
  then show ?case by simp
next
  case (3 es s)
  from 3(3) obtain s' rest' where ss': "ss' = s' # rest'"
    by (cases ss') simp_all
  from 3(1) obtain t where t: "map_of es s = Some (File t)"
    and r: "r = Dir (filter (\<lambda>e. fst e \<noteq> s) es)"
    by (auto split: option.splits node.splits)
  have "s' \<noteq> s"
  proof
    assume "s' = s"
    with 3(3) t have "rest' = []" by (cases rest') (simp_all add: ss')
    with \<open>s' = s\<close> 3(2) show False by (simp add: ss')
  qed
  then show ?case
    using 3(3) by (simp add: r ss' map_of_filter_other)
next
  case (4 es s s2 ss)
  from 4(4) obtain s' rest' where ss': "ss' = s' # rest'"
    by (cases ss') simp_all
  from 4(2) obtain c c' where c: "map_of es s = Some c" and c': "remove_at c (s2 # ss) = Some c'"
    and r: "r = Dir (put s c' es)"
    by (auto split: option.splits)
  show ?case
  proof (cases "s' = s")
    case True
    with 4(3) have "rest' \<noteq> s2 # ss" by (simp add: ss')
    moreover from 4(4) True c have "lookup c rest' = Some (File u)"
      by (simp add: ss')
    ultimately have "lookup c' rest' = Some (File u)"
      using "4.IH" [OF c c'] by blast
    then show ?thesis
      by (simp add: r ss' True map_of_put)
  next
    case False
    then show ?thesis
      using 4(4) by (simp add: r ss' map_of_put_other)
  qed
qed

lemma remove_gone: "remove_at n ss = Some r \<Longrightarrow> lookup r ss = None"
proof (induction n ss arbitrary: r rule: remove_at.induct)
  case (3 es s)
  then show ?case
    by (auto simp: map_of_filter_same split: option.splits node.splits)
next
  case (4 es s s2 ss)
  from 4(2) obtain c c' where c: "map_of es s = Some c" and c': "remove_at c (s2 # ss) = Some c'"
    and r: "r = Dir (put s c' es)"
    by (auto split: option.splits)
  from "4.IH" [OF c c'] show ?case
    by (simp add: r map_of_put)
qed simp_all

lemma write_at_indep: "write_at n ss t = None \<longleftrightarrow> write_at n ss t' = None"
proof (induction n ss t rule: write_at.induct)
  case (4 es s ss t)
  then show ?case
    by (cases "map_of es s") (auto split: option.splits)
qed simp_all

lemma fold_take_Suc:
  "i < length xs \<Longrightarrow> fold step (take (Suc i) xs) s = step (xs ! i) (fold step (take i xs) s)"
  by (simp add: take_Suc_conv_app_nth)

lemma fold_keeps:
  assumes frame: "\<And>f s. f \<in> set xs \<Longrightarrow> tgt f \<noteq> p \<Longrightarrow> read_file (fs s) p = Some u
            \<Longrightarrow> read_file (fs (step f s)) p = Some u"
    and "read_file (fs s0) p = Some u" and "\<forall>f\<in>set xs. tgt f \<noteq> p"
  shows "read_file (fs (fold step xs s0)) p = Some u"
  using assms
proof (induction xs arbitrary: s0)
  case Nil
  then show ?case by simp
next
  case (Cons x xs)
  have "read_file (fs (step x s0)) p = Some u"
    using Cons.prems by simp
  then show ?case
    using Cons.IH [of "step x s0"] Cons.prems by simp
qed

lemma persists:
  assumes frame: "\<And>f s p u. tgt f \<noteq> p \<Longrightarrow> read_file (fs s) p = Some u
            \<Longrightarrow> read_file (fs (step f s)) p = Some u"
    and i: "i < length xs"
    and now: "read_file (fs (fold step (take (Suc i) xs) s0)) (tgt (xs ! i)) = Some u"
    and later: "\<forall>j. i < j \<and> j < length xs \<longrightarrow> tgt (xs ! j) \<noteq> tgt (xs ! i)"
  shows "read_file (fs (fold step xs s0)) (tgt (xs ! i)) = Some u"
proof -
  have split: "fold step xs s0 = fold step (drop (Suc i) xs) (fold step (take (Suc i) xs) s0)"
    by (metis append_take_drop_id fold_append comp_apply)
  have "\<forall>f\<in>set (drop (Suc i) xs). tgt f \<noteq> tgt (xs ! i)"
  proof
    fix f
    assume "f \<in> set (drop (Suc i) xs)"
    then obtain k where k: "k < length (drop (Suc i) xs)" "f = drop (Suc i) xs ! k"
      by (metis in_set_conv_nth)
    then have "f = xs ! (Suc i + k)" and "Suc i + k < length xs"
      by simp_all
    with later show "tgt f \<noteq> tgt (xs ! i)"
      by simp
  qed
  then have "read_file (fs (fold step (drop (Suc i) xs) (fold step (take (Suc i) xs) s0)))
          (tgt (xs ! i)) = Some u"
    using now frame
    by (intro fold_keeps [where tgt = tgt and xs = "drop (Suc i) xs"]) blast+
  then show ?thesis
    by (simp only: split)
qed

lemma keep_dir_step:
  assumes "(if path_exists root q then Some root else makedirs root (split_path q)) = Some r1"
    and "read_file root p = Some u"
  shows "read_file r1 p = Some u"
proof (cases "path_exists root q")
  case True
  with assms show ?thesis by simp
next
  case False
  with assms(1) have m: "makedirs root (split_path q) = Some r1" by simp
  from assms(2) have "lookup root (split_path p) = Some (File u)"
    by (auto simp: read_file_def split: option.splits node.splits)
  from keep_makedirs [OF m this] show ?thesis
    by (simp add: read_file_def)
qed

lemma keep_write_file:
  assumes "write_file r1 q t = Some r2" and "p \<noteq> q" and "read_file r1 p = Some u"
  shows "read_file r2 p = Some u"
proof -
  from assms(3) have "lookup r1 (split_path p) = Some (File u)"
    by (auto simp: read_file_def split: option.splits node.splits)
  moreover have "split_path p \<noteq> split_path q"
    using assms(2) split_path_inject by blast
  ultimately have "lookup r2 (split_path p) = Some (File u)"
    using keep_write assms(1) unfolding write_file_def by blast
  then show ?thesis
    by (simp add: read_file_def)
qed

lemma render_one_rendered_spec: "rendered L d f s (render_one L d f s)"
proof (cases "render L (fs s) (relpath f ''templates'') d")
  case (Inl e)
  then show ?thesis
    by (cases e) (simp_all add: rendered_def render_one_def)
next
  case (Inr res)
  let ?p = "outname f"
  let ?dir = "if path_exists (fs s) (dirname ?p) then Some (fs s)
              else makedirs (fs s) (split_path (dirname ?p))"
  show ?thesis
  proof (cases ?dir)
    case None
    then show ?thesis
      using Inr by (simp add: rendered_def render_one_def can_write_def Let_def)
  next
    case (Some r1)
    have keep1: "read_file r1 p = Some u" if "read_file (fs s) p = Some u" for p u
      using keep_dir_step [OF Some that] .
    show ?thesis
    proof (cases "write_file r1 ?p res")
      case None
      then have "write_file r1 ?p [] = None"
        using write_at_indep [of r1 "split_path ?p" res "[]"] by (simp add: write_file_def)
      then have "\<not> can_write (fs s) ?p"
        using Some by (simp add: can_write_def)
      then show ?thesis
        using Inr Some None keep1 by (simp add: rendered_def render_one_def Let_def)
    next
      case w: (Some r2)
      then have "write_file r1 ?p [] \<noteq> None"
        using write_at_indep [of r1 "split_path ?p" res "[]"] by (simp add: write_file_def)
      then have c: "can_write (fs s) ?p"
        using Some by (simp add: can_write_def)
      have "read_file r2 ?p = Some res"
        using w by (rule read_after_write)
      moreover have "read_file r2 p = Some u" if "p \<noteq> ?p" "read_file (fs s) p = Some u" for p u
        using keep_write_file [OF w that(1) keep1 [OF that(2)]] .
      ultimately show ?thesis
        using Inr Some w c by (simp add: rendered_def render_one_def Let_def)
    qed
  qed
qed

lemma lookup_fresh: "lookup (fresh ss) rest \<noteq> Some (File u)"
proof (induction ss arbitrary: rest)
  case Nil
  then show ?case by (cases rest) simp_all
next
  case (Cons s ss)
  then show ?case by (cases rest) (simp_all split: option.splits)
qed

lemma rev_makedirs:
  "makedirs n ss = Some r \<Longrightarrow> lookup r ss' = Some (File u) \<Longrightarrow> lookup n ss' = Some (File u)"
proof (induction n ss arbitrary: r ss' rule: makedirs.induct)
  case (1 n)
  then show ?case by simp
next
  case (2 t s ss)
  then show ?case by simp
next
  case (3 es s ss)
  show ?case
  proof (cases "map_of es s")
    case None
    with 3(2) have r: "r = Dir (es @ [(s, fresh ss)])"
      by simp
    from 3(3) obtain s' rest' where ss': "ss' = s' # rest'"
      by (cases ss') (simp_all add: r)
    show ?thesis
    proof (cases "map_of es s'")
      case n: None
      with 3(3) show ?thesis
        by (auto simp: r ss' map_add_def lookup_fresh split: option.splits if_splits)
    next
      case (Some c)
      with 3(3) show ?thesis
        by (simp add: r ss' map_add_def)
    qed
  next
    case (Some c)
    with 3(2) obtain c' where c': "makedirs c ss = Some c'" and r: "r = Dir (put s c' es)"
      by (auto split: option.splits)
    from 3(3) obtain s' rest' where ss': "ss' = s' # rest'"
      by (cases ss') (simp_all add: r)
    show ?thesis
    proof (cases "s' = s")
      case True
      from 3(3) have "lookup c' rest' = Some (File u)"
        by (simp add: r ss' True map_of_put)
      then have "lookup c rest' = Some (File u)"
        using "3.IH" [OF Some c'] by blast
      then show ?thesis
        by (simp add: ss' True Some)
    next
      case False
      then show ?thesis
        using 3(3) by (simp add: r ss' map_of_put_other)
    qed
  qed
qed

lemma rev_remove:
  "remove_at n ss = Some r \<Longrightarrow> lookup r ss' = Some (File u) \<Longrightarrow> lookup n ss' = Some (File u)"
proof (induction n ss arbitrary: r ss' rule: remove_at.induct)
  case (1 n)
  then show ?case by simp
next
  case (2 t s ss)
  then show ?case by simp
next
  case (3 es s)
  from 3(1) have r: "r = Dir (filter (\<lambda>e. fst e \<noteq> s) es)"
    by (auto split: option.splits node.splits)
  from 3(2) obtain s' rest' where ss': "ss' = s' # rest'"
    by (cases ss') (simp_all add: r)
  from 3(2) have "s' \<noteq> s"
    by (auto simp: r ss' map_of_filter_same)
  then show ?case
    using 3(2) by (simp add: r ss' map_of_filter_other)
next
  case (4 es s s2 ss)
  from 4(2) obtain c c' where c: "map_of es s = Some c" and c': "remove_at c (s2 # ss) = Some c'"
    and r: "r = Dir (put s c' es)"
    by (auto split: option.splits)
  from 4(3) obtain s' rest' where ss': "ss' = s' # rest'"
    by (cases ss') (simp_all add: r)
  show ?case
  proof (cases "s' = s")
    case True
    from 4(3) have "lookup c' rest' = Some (File u)"
      by (simp add: r ss' True map_of_put)
    then have "lookup c rest' = Some (File u)"
      using "4.IH" [OF c c'] by blast
    then show ?thesis
      by (simp add: ss' True c)
  next
    case False
    then show ?thesis
      using 4(3) by (simp add: r ss' map_of_put_other)
  qed
qed

lemma remove_then_write:
  "remove_at n ss = Some r \<Longrightarrow> write_at r ss t \<noteq> None \<and> write_at n ss t' \<noteq> None"
proof (induction n ss arbitrary: r rule: remove_at.induct)
  case (3 es s)
  then show ?case
    by (auto simp: map_of_filter_same split: option.splits node.splits)
next
  case (4 es s s2 ss)
  from 4(2) obtain c c' where c: "map_of es s = Some c" and c': "remove_at c (s2 # ss) = Some c'"
    and r: "r = Dir (put s c' es)"
    by (auto split: option.splits)
  from "4.IH" [OF c c'] show ?case
    by (auto simp: r c map_of_put)
qed simp_all

lemma remove_fails_write_fails:
  "lookup n ss \<noteq> None \<Longrightarrow> ss \<noteq> [] \<Longrightarrow> remove_at n ss = None \<Longrightarrow> write_at n ss t = None"
proof (induction n ss rule: remove_at.induct)
  case (3 es s)
  then show ?case
    by (auto split: option.splits node.splits)
next
  case (4 es s s2 ss)
  then show ?case
    by (auto split: option.splits)
qed simp_all

lemma destination_neq: "destination f \<noteq> f"
proof -
  have "length (destination f) \<noteq> length f"
    by (auto simp: destination_def relpath_def join_def endswith_def prefix_def)
  then show ?thesis by auto
qed

lemma rev_dir_step:
  assumes "(if path_exists root q then Some root else makedirs root (split_path q)) = Some r1"
    and "read_file r1 p = Some u"
  shows "read_file root p = Some u"
proof (cases "path_exists root q")
  case True
  with assms show ?thesis by simp
next
  case False
  with assms(1) have m: "makedirs root (split_path q) = Some r1" by simp
  from assms(2) have "lookup r1 (split_path p) = Some (File u)"
    by (auto simp: read_file_def split: option.splits node.splits)
  from rev_makedirs [OF m this] show ?thesis
    by (simp add: read_file_def)
qed

lemma read_file_iff: "read_file root p = Some u \<longleftrightarrow> lookup root (split_path p) = Some (File u)"
  by (auto simp: read_file_def split: option.splits node.splits)

lemma copy_one_eq:
  "copy_one f s =
     (case (if path_exists (fs s) (dirname (destination f)) then Some (fs s)
            else makedirs (fs s) (split_path (dirname (destination f)))) of
        None \<Rightarrow> print (ErrorCopying f (destination f)) s
      | Some r1 \<Rightarrow>
          (case (if path_exists r1 (destination f) then remove_at r1 (split_path (destination f))
                 else Some r1) of
             None \<Rightarrow> print (ErrorCopying f (destination f)) (s\<lparr>fs := r1\<rparr>)
           | Some r2 \<Rightarrow>
               (case copy r2 f (destination f) of
                  None \<Rightarrow> print (ErrorCopying f (destination f)) (s\<lparr>fs := r2\<rparr>)
                | Some r3 \<Rightarrow> print (Copied f (destination f)) (s\<lparr>fs := r3\<rparr>))))"
  unfolding copy_one_def destination_def Let_def ..

lemma copy_one_copied_spec: "copied f s (copy_one f s)"
proof -
  let ?d = "destination f"
  let ?dir = "if path_exists (fs s) (dirname ?d) then Some (fs s)
              else makedirs (fs s) (split_path (dirname ?d))"
  let ?err = "ErrorCopying f ?d"
  show ?thesis
  proof (cases ?dir)
    case None
    then show ?thesis
      by (simp add: copied_def copy_one_eq can_write_def)
  next
    case (Some r1)
    have keep1: "read_file r1 p = Some u" if "read_file (fs s) p = Some u" for p u
      using keep_dir_step [OF Some that] .
    have rev1: "read_file (fs s) p = Some u" if "read_file r1 p = Some u" for p u
      using rev_dir_step [OF Some that] .
    have cw: "can_write (fs s) ?d \<longleftrightarrow> write_file r1 ?d [] \<noteq> None"
      using Some by (simp add: can_write_def)
    show ?thesis
    proof (cases "path_exists r1 ?d \<and> remove_at r1 (split_path ?d) = None")
      case True
      then have "write_at r1 (split_path ?d) [] = None"
        by (intro remove_fails_write_fails) (simp_all add: path_exists_def)
      then have "\<not> can_write (fs s) ?d"
        by (simp add: cw write_file_def)
      moreover have "copy_one f s = print ?err (s\<lparr>fs := r1\<rparr>)"
        using Some True by (simp add: copy_one_eq)
      ultimately show ?thesis
        using keep1 by (simp add: copied_def)
    next
      case False
      define r2 where "r2 = (if path_exists r1 ?d then the (remove_at r1 (split_path ?d)) else r1)"
      have step: "(if path_exists r1 ?d then remove_at r1 (split_path ?d) else Some r1) = Some r2"
        using False by (auto simp: r2_def)
      have gone: "lookup r2 (split_path ?d) = None"
      proof (cases "path_exists r1 ?d")
        case True
        with step show ?thesis by (simp add: remove_gone)
      next
        case False
        with step show ?thesis by (simp add: path_exists_def)
      qed
      have keep2: "read_file r2 p = Some u" if "p \<noteq> ?d" "read_file (fs s) p = Some u" for p u
      proof (cases "path_exists r1 ?d")
        case True
        with step have rm: "remove_at r1 (split_path ?d) = Some r2" by simp
        have "split_path p \<noteq> split_path ?d"
          using that(1) split_path_inject by blast
        then show ?thesis
          using keep_remove [OF rm] keep1 [OF that(2)] by (simp add: read_file_iff)
      next
        case False
        with step keep1 [OF that(2)] show ?thesis by simp
      qed
      have rev2: "read_file (fs s) p = Some u" if "read_file r2 p = Some u" for p u
      proof (cases "path_exists r1 ?d")
        case True
        with step have rm: "remove_at r1 (split_path ?d) = Some r2" by simp
        have "read_file r1 p = Some u"
          using rev_remove [OF rm] that by (simp add: read_file_iff)
        then show ?thesis by (rule rev1)
      next
        case False
        with step that show ?thesis by (simp add: rev1)
      qed
      have wr: "write_file r2 ?d t = None \<longleftrightarrow> \<not> can_write (fs s) ?d" for t
      proof (cases "path_exists r1 ?d")
        case True
        with step have rm: "remove_at r1 (split_path ?d) = Some r2" by simp
        from remove_then_write [OF rm, of t "[]"] show ?thesis
          by (simp add: cw write_file_def)
      next
        case False
        with step have "r2 = r1" by simp
        then show ?thesis
          using write_at_indep [of r1 "split_path ?d" t "[]"] by (simp add: cw write_file_def)
      qed
      have src: "read_file r2 f = read_file (fs s) f"
      proof (cases "read_file (fs s) f")
        case None
        then show ?thesis
          using rev2 [of f] by (cases "read_file r2 f") auto
      next
        case (Some t)
        then show ?thesis
          using keep2 [of f t] destination_neq [of f] by auto
      qed
      have body: "copy_one f s =
          (case copy r2 f ?d of
             None \<Rightarrow> print ?err (s\<lparr>fs := r2\<rparr>)
           | Some r3 \<Rightarrow> print (Copied f ?d) (s\<lparr>fs := r3\<rparr>))"
        using Some step by (simp add: copy_one_eq)
      have cp: "copy r2 f ?d = (case read_file (fs s) f of None \<Rightarrow> None | Some t \<Rightarrow> write_file r2 ?d t)"
        using gone by (simp add: copy_def src split: option.splits)
      show ?thesis
      proof (cases "read_file (fs s) f")
        case None
        then show ?thesis
          using keep2 by (simp add: copied_def body cp)
      next
        case t: (Some t)
        show ?thesis
        proof (cases "write_file r2 ?d t")
          case None
          then have "\<not> can_write (fs s) ?d" by (simp add: wr)
          then show ?thesis
            using keep2 None t by (simp add: copied_def body cp)
        next
          case w: (Some r3)
          then have c: "can_write (fs s) ?d"
            using wr [of t] by auto
          have "read_file r3 ?d = Some t"
            using w by (rule read_after_write)
          moreover have "read_file r3 p = Some u" if "p \<noteq> ?d" "read_file (fs s) p = Some u" for p u
            using keep_write_file [OF w that(1) keep2 [OF that]] .
          ultimately show ?thesis
            using c t w by (simp add: copied_def body cp)
        qed
      qed
    qed
  qed
qed

section \<open>Properties of the loops\<close>

lemma state_at_all: "state_at step xs s (length xs) = fold step xs s"
  by (simp add: state_at_def)

lemma state_at_Suc: "i < length xs \<Longrightarrow> state_at step xs s (Suc i) = step (xs ! i) (state_at step xs s i)"
  unfolding state_at_def by (rule fold_take_Suc)

lemma render_frame:
  assumes "outname f \<noteq> p" and "read_file (fs x) p = Some u"
  shows "read_file (fs (render_one L d f x)) p = Some u"
proof -
  have "rendered L d f x (render_one L d f x)"
    by (rule render_one_rendered_spec)
  then have "\<forall>p u. p \<noteq> outname f \<longrightarrow> read_file (fs x) p = Some u
               \<longrightarrow> read_file (fs (render_one L d f x)) p = Some u"
    unfolding rendered_def by (rule conjunct2)
  with assms show ?thesis by metis
qed

lemma copy_frame:
  assumes "destination f \<noteq> p" and "read_file (fs x) p = Some u"
  shows "read_file (fs (copy_one f x)) p = Some u"
proof -
  have "copied f x (copy_one f x)"
    by (rule copy_one_copied_spec)
  then have "\<forall>p u. p \<noteq> destination f \<longrightarrow> read_file (fs x) p = Some u
               \<longrightarrow> read_file (fs (copy_one f x)) p = Some u"
    unfolding copied_def by (rule conjunct2)
  with assms show ?thesis by metis
qed

lemma state_at_persists:
  assumes frame: "\<And>f s p u. tgt f \<noteq> p \<Longrightarrow> read_file (fs s) p = Some u
            \<Longrightarrow> read_file (fs (step f s)) p = Some u"
    and i: "i < length xs"
    and now: "read_file (fs (state_at step xs s0 (Suc i))) (tgt (xs ! i)) = Some u"
    and later: "\<forall>j. i < j \<and> j < length xs \<longrightarrow> tgt (xs ! j) \<noteq> tgt (xs ! i)"
  shows "read_file (fs (state_at step xs s0 (length xs))) (tgt (xs ! i)) = Some u"
  unfolding state_at_all
  by (rule persists [where tgt = tgt, OF frame i now [unfolded state_at_def] later])

lemma loaded:
  "load_data L (print l st)
     = (map_of (rev (concat (map (writes L (fs st)) (jobs (fs st))))),
        st\<lparr>out := out st @ l # map (verdict L (fs st)) (jobs (fs st))\<rparr>)"
  by (simp add: load_data_eq print_def)

lemma render_lines:
  assumes "out s1 = out st @ pre" and "fs s1 = fs st"
    and "filter is_load_line pre = lo" and "filter is_copy_line pre = []"
    and "filter is_render_line pre = []"
  shows "filter is_load_line (printed st (render_templates L d s1)) = lo
         \<and> map subject (filter is_render_line (printed st (render_templates L d s1)))
             = template_files (fs st)
         \<and> filter is_copy_line (printed st (render_templates L d s1)) = []"
proof -
  from render_templates_prints [of L d s1] obtain ls where
    ls: "out (render_templates L d s1) = out s1 @ ls" "list_all is_render_line ls"
      "map subject ls = template_files (fs s1)"
    by blast
  have p: "printed st (render_templates L d s1) = pre @ ls"
    by (rule printed_append) (simp add: ls(1) assms(1))
  have "filter is_load_line ls = []" "filter is_copy_line ls = []" "filter is_render_line ls = ls"
    using ls(2) by (auto intro: filter_none filter_all dest: render_not_other)
  then show ?thesis
    using ls(3) assms by (simp add: p)
qed

lemma copy_lines:
  assumes "out s1 = out st @ pre" and "fs s1 = fs st"
    and "filter is_load_line pre = lo" and "filter is_copy_line pre = []"
    and "filter is_render_line pre = []"
  shows "filter is_load_line (printed st (copy_html_files s1)) = lo
         \<and> map subject (filter is_copy_line (printed st (copy_html_files s1)))
             = glob_rec (fs st) ''templates'' html_pat
         \<and> filter is_render_line (printed st (copy_html_files s1)) = []"
proof -
  from copy_html_files_prints [of s1] obtain ls where
    ls: "out (copy_html_files s1) = out s1 @ ls" "list_all is_copy_line ls"
      "map subject ls = glob_rec (fs s1) ''templates'' html_pat"
    by blast
  have p: "printed st (copy_html_files s1) = pre @ ls"
    by (rule printed_append) (simp add: ls(1) assms(1))
  have "filter is_load_line ls = []" "filter is_render_line ls = []" "filter is_copy_line ls = ls"
    using ls(2) by (auto intro: filter_none filter_all dest: copy_not_other)
  then show ?thesis
    using ls(3) assms by (simp add: p)
qed


lemma rendered_file:
  assumes "rendered L d f s s'" and "render L (fs s) (relpath f ''templates'') d = Inr res"
    and "can_write (fs s) (outname f)"
  shows "read_file (fs s') (outname f) = Some res"
  using assms by (simp add: rendered_def)

lemma copied_file:
  assumes "copied f s s'" and "read_file (fs s) f = Some t" and "can_write (fs s) (destination f)"
  shows "read_file (fs s') (destination f) = Some t"
  using assms by (simp add: copied_def)

section \<open>The claims\<close>

subsection \<open>Claim C10\<close>



subsection \<open>Claim C4\<close>

text \<open>
  C4, as stated, fails. The data directory of \<open>ex_yaml_first\<close> enumerates \<open>b.yaml\<close>
  before \<open>a.json\<close>, and both define \<open>title\<close>; \<open>load_data\<close> nevertheless processes
  \<open>a.json\<close> first, and the merged title is the one of \<open>b.yaml\<close>, the file enumerated
  first.
\<close>

theorem enumeration_order_counterexample:
  "glob_in (fs ex_yaml_first) ''data'' [Star] = [''data/b.yaml'', ''data/a.json'']
   \<and> writes ex_libs (fs ex_yaml_first) (YAML, ''data/b.yaml'') = [(''title'', ''Y'')]
   \<and> writes ex_libs (fs ex_yaml_first) (JSON, ''data/a.json'') = [(''title'', ''J'')]
   \<and> map snd (jobs (fs ex_yaml_first)) = [''data/a.json'', ''data/b.yaml'']
   \<and> fst (load_data ex_libs ex_yaml_first) ''title'' = Some ''Y''"
  by (simp add: load_data_eq jobs_def yaml_files_def json_files_def ex_yaml_first_def glob_in_def
      glob1_def yaml_pat_def json_pat_def attempt_def read_file_def ex_libs_def ex_json_def
      ex_yaml_def)

text \<open>
  C4, amended. The files are processed in the order of \<open>jobs\<close>: the JSON files in the
  order the data directory enumerates them, then the YAML files in that order, one line
  printed for each. A key has the value given by the last file in that order that stores
  it.
\<close>

theorem last_writer_wins:
  assumes "jobs (fs st) = before @ j # after"
    and "map_of (rev (writes L (fs st) j)) k = Some v"
    and "\<forall>j'\<in>set after. k \<notin> fst ` set (writes L (fs st) j')"
  shows "fst (load_data L st) k = Some v
         \<and> out (snd (load_data L st)) = out st @ map (verdict L (fs st)) (before @ j # after)"
proof -
  have "map_of (rev (concat (map (writes L (fs st)) after))) k = None"
    using assms(3) by (rule map_of_rev_concat_None)
  then have "map_of (rev (concat (map (writes L (fs st)) (before @ j # after)))) k = Some v"
    using assms(2) by (simp add: map_add_def)
  then show ?thesis
    by (simp add: load_data_eq assms(1))
qed

theorem last_writer_wins_witness:
  "jobs (fs ex_collision)
     = [(JSON, ''data/a.json'')] @ (YAML, ''data/b.yaml'') # [(YAML, ''data/c.yaml'')]
   \<and> writes ex_libs (fs ex_collision) (JSON, ''data/a.json'') = [(''title'', ''J'')]
   \<and> writes ex_libs (fs ex_collision) (YAML, ''data/b.yaml'') = [(''title'', ''Y'')]
   \<and> writes ex_libs (fs ex_collision) (YAML, ''data/c.yaml'') = [(''author'', ''A'')]
   \<and> fst (load_data ex_libs ex_collision) ''title'' = Some ''Y''
   \<and> out (snd (load_data ex_libs ex_collision))
       = [Loaded ''data/a.json'', Loaded ''data/b.yaml'', Loaded ''data/c.yaml'']"
proof -
  have a: "attempt (json_load ex_libs) (fs ex_collision) ''data/a.json''
             = ([(''title'', ''J'')], None)"
    "attempt (yaml_load ex_libs) (fs ex_collision) ''data/b.yaml'' = ([(''title'', ''Y'')], None)"
    "attempt (yaml_load ex_libs) (fs ex_collision) ''data/c.yaml'' = ([(''author'', ''A'')], None)"
    by (simp_all add: attempt_def read_file_def ex_collision_def ex_libs_def ex_json_def
        ex_yaml_def)
  have h1: "jobs (fs ex_collision)
     = [(JSON, ''data/a.json'')] @ (YAML, ''data/b.yaml'') # [(YAML, ''data/c.yaml'')]"
    by (simp add: jobs_def yaml_files_def json_files_def ex_collision_def glob_in_def glob1_def
        yaml_pat_def json_pat_def)
  have h2: "map_of (rev (writes ex_libs (fs ex_collision) (YAML, ''data/b.yaml''))) ''title''
              = Some ''Y''"
    by (simp add: a)
  have h3: "\<forall>j'\<in>set [(YAML, ''data/c.yaml'')].
              ''title'' \<notin> fst ` set (writes ex_libs (fs ex_collision) j')"
    by (simp add: a)
  have o: "out ex_collision = []"
    by (simp add: ex_collision_def)
  from last_writer_wins [OF h1 h2 h3]
  have "fst (load_data ex_libs ex_collision) ''title'' = Some ''Y''"
    and "out (snd (load_data ex_libs ex_collision))
           = out ex_collision
             @ map (verdict ex_libs (fs ex_collision))
                 ([(JSON, ''data/a.json'')] @ (YAML, ''data/b.yaml'') # [(YAML, ''data/c.yaml'')])"
    by blast+
  then show ?thesis
    using h1 by (simp add: a o)
qed

subsection \<open>Claim C6\<close>

text \<open>
  C6, as stated, fails. The file \<open>bad.json\<close> of \<open>ex_mixed\<close> holds the list
  \<open>[["a", "1"], 5]\<close>: \<open>update\<close> stores the pair and then raises on \<open>5\<close>. The failure is
  caught and logged and the YAML file is still processed, but the mapping returned has
  the key \<open>a\<close>, which no successful file defines.
\<close>

theorem partial_merge_counterexample:
  "out (snd (load_data ex_libs ex_mixed))
     = [Loaded ''data/a.json'', ErrorLoading ''data/bad.json'' MergeFailed,
        ErrorLoading ''data/empty.yaml'' MergeFailed]
   \<and> fst (load_data ex_libs ex_mixed) ''a'' = Some ''1''"
  by (simp add: load_data_eq ex_mixed_jobs ex_mixed_attempts) (simp add: ex_mixed_def)

text \<open>
  C6, amended. Every file that \<open>glob\<close> returned is processed and prints one line, \<open>Loaded\<close>
  or \<open>ErrorLoading\<close> with its path and the cause; the file system is not changed. The
  mapping returned merges, in processing order, what each file stored: all the items of a
  file that loaded, nothing for a file that could not be opened or parsed or whose
  top level cannot be iterated, and the pairs stored before the failure for a file whose
  merge failed. Without a data directory, or without a matching file, it is empty.
\<close>

theorem load_data_isolates_failures:
  "fst (load_data L st) = map_of (rev (concat (map (writes L (fs st)) (jobs (fs st)))))
   \<and> out (snd (load_data L st)) = out st @ map (verdict L (fs st)) (jobs (fs st))
   \<and> fs (snd (load_data L st)) = fs st
   \<and> (lookup (fs st) [''data''] = None \<or> jobs (fs st) = [] \<longrightarrow> fst (load_data L st) = Map.empty)"
proof -
  have "jobs (fs st) = []" if "lookup (fs st) [''data''] = None"
    using that by (simp add: jobs_def json_files_def yaml_files_def glob_in_def)
  then have "fst (load_data L st) = Map.empty"
    if "lookup (fs st) [''data''] = None \<or> jobs (fs st) = []"
    using that by (auto simp: load_data_eq)
  then show ?thesis
    by (simp add: load_data_eq)
qed

theorem load_data_isolates_failures_witness:
  "lookup (fs \<lparr>fs = Dir [], out = []\<rparr>) [''data''] = None
   \<and> fst (load_data ex_libs \<lparr>fs = Dir [], out = []\<rparr>) = Map.empty
   \<and> fst (load_data ex_libs ex_mixed) ''title'' = Some ''J''
   \<and> out (snd (load_data ex_libs ex_mixed))
       = [Loaded ''data/a.json'', ErrorLoading ''data/bad.json'' MergeFailed,
          ErrorLoading ''data/empty.yaml'' MergeFailed]"
proof -
  have h: "lookup (fs \<lparr>fs = Dir [], out = []\<rparr>) [''data''] = None"
    by simp
  have o: "out ex_mixed = []"
    by (simp add: ex_mixed_def)
  have e: "fst (load_data ex_libs \<lparr>fs = Dir [], out = []\<rparr>) = Map.empty"
    using load_data_isolates_failures [of ex_libs "\<lparr>fs = Dir [], out = []\<rparr>"] h by blast
  have m: "fst (load_data ex_libs ex_mixed) ''title'' = Some ''J''
           \<and> out (snd (load_data ex_libs ex_mixed))
               = [Loaded ''data/a.json'', ErrorLoading ''data/bad.json'' MergeFailed,
                  ErrorLoading ''data/empty.yaml'' MergeFailed]"
    using load_data_isolates_failures [of ex_libs ex_mixed]
    by (simp add: ex_mixed_jobs ex_mixed_attempts o)
  show ?thesis
    using h e m by blast
qed

subsection \<open>Claim C7\<close>

text \<open>
  C7. When the keys stored by different data files are pairwise disjoint, the mapping
  returned is the union of what the files store: a key has a value exactly when some
  file gives it that value. The result does not depend on the order of the merge: a data
  directory with the same entries enumerated in another order (and so processed in
  another order) gives the same mapping.
\<close>

theorem disjoint_keys_union:
  assumes disj: "\<forall>j1\<in>set (jobs (fs st)). \<forall>j2\<in>set (jobs (fs st)).
            j1 \<noteq> j2 \<longrightarrow> fst ` set (writes L (fs st) j1) \<inter> fst ` set (writes L (fs st) j2) = {}"
    and d: "lookup (fs st) [''data''] = Some (Dir es)"
    and d': "lookup (fs st') [''data''] = Some (Dir es')"
    and perm: "mset es' = mset es"
    and dist: "distinct (map fst es)"
  shows "(fst (load_data L st) k = Some v
            \<longleftrightarrow> (\<exists>j\<in>set (jobs (fs st)). map_of (rev (writes L (fs st) j)) k = Some v))
         \<and> fst (load_data L st') = fst (load_data L st)"
proof -
  have union: "fst (load_data L st) k = Some v
            \<longleftrightarrow> (\<exists>j\<in>set (jobs (fs st)). map_of (rev (writes L (fs st) j)) k = Some v)" for k v
    using union_of_disjoint [OF disj] by (simp add: load_data_eq)
  have "mset (map fst es') = mset (map fst es)"
    using perm by (metis mset_map)
  then have dist': "distinct (map fst es')"
    using dist by (metis mset_eq_imp_distinct_iff)
  have "set es' = set es"
    using perm by (rule mset_eq_setD)
  then have m: "map_of es' = map_of es"
    using dist dist' by (simp add: map_of_inject_set)
  have names: "set (map fst es') = set (map fst es)"
    using \<open>set es' = set es\<close> by simp
  have same_jobs: "set (jobs (fs st')) = set (jobs (fs st))"
    by (simp add: jobs_data [OF d] jobs_data [OF d'] set_glob1_cong [OF names])
  have same_writes: "writes L (fs st') j = writes L (fs st) j" if "j \<in> set (jobs (fs st))" for j
  proof -
    from that obtain fmt n where j: "j = (fmt, ''data'' @ ''/'' @ n)"
      by (auto simp: jobs_data [OF d])
    have "lookup (Dir es') (split_path n) = lookup (Dir es) (split_path n)"
      using m by (intro lookup_cong_map_of) simp_all
    then show ?thesis
      by (simp add: j attempt_data [OF d] attempt_data [OF d'] del: append.simps)
  qed
  have disj': "\<forall>j1\<in>set (jobs (fs st')). \<forall>j2\<in>set (jobs (fs st')).
            j1 \<noteq> j2 \<longrightarrow> fst ` set (writes L (fs st') j1) \<inter> fst ` set (writes L (fs st') j2) = {}"
    using disj by (simp add: same_jobs same_writes)
  have union': "fst (load_data L st') k = Some v
            \<longleftrightarrow> (\<exists>j\<in>set (jobs (fs st')). map_of (rev (writes L (fs st') j)) k = Some v)" for k v
    using union_of_disjoint [OF disj'] by (simp add: load_data_eq)
  have "fst (load_data L st') k = fst (load_data L st) k" for k
  proof (cases "fst (load_data L st) k")
    case None
    then have "fst (load_data L st') k \<noteq> Some v" for v
      using union [of k v] union' [of k v] by (simp add: same_jobs same_writes)
    with None show ?thesis by (cases "fst (load_data L st') k") auto
  next
    case (Some v)
    then show ?thesis
      using union [of k v] union' [of k v] by (simp add: same_jobs same_writes)
  qed
  then show ?thesis
    using union by auto
qed

theorem disjoint_keys_union_witness:
  "jobs (fs ex_disjoint) = [(JSON, ''data/a.json''), (JSON, ''data/b.json'')]
   \<and> jobs (fs ex_disjoint_swapped) = [(JSON, ''data/b.json''), (JSON, ''data/a.json'')]
   \<and> writes ex_libs (fs ex_disjoint) (JSON, ''data/a.json'') = [(''title'', ''J'')]
   \<and> writes ex_libs (fs ex_disjoint) (JSON, ''data/b.json'') = [(''author'', ''A'')]
   \<and> fst (load_data ex_libs ex_disjoint) ''author'' = Some ''A''
   \<and> fst (load_data ex_libs ex_disjoint_swapped) = fst (load_data ex_libs ex_disjoint)"
proof -
  let ?es = "[(''a.json'', File ''{\"title\": \"J\"}''), (''b.json'', File ''{\"author\": \"A\"}'')]"
  let ?es' = "[(''b.json'', File ''{\"author\": \"A\"}''), (''a.json'', File ''{\"title\": \"J\"}'')]"
  have j: "jobs (fs ex_disjoint) = [(JSON, ''data/a.json''), (JSON, ''data/b.json'')]"
    by (simp add: jobs_def yaml_files_def json_files_def ex_disjoint_def glob_in_def glob1_def
        yaml_pat_def json_pat_def)
  have j': "jobs (fs ex_disjoint_swapped) = [(JSON, ''data/b.json''), (JSON, ''data/a.json'')]"
    by (simp add: jobs_def yaml_files_def json_files_def ex_disjoint_swapped_def glob_in_def
        glob1_def yaml_pat_def json_pat_def)
  have a: "attempt (json_load ex_libs) (fs ex_disjoint) ''data/a.json'' = ([(''title'', ''J'')], None)"
    "attempt (json_load ex_libs) (fs ex_disjoint) ''data/b.json'' = ([(''author'', ''A'')], None)"
    by (simp_all add: attempt_def read_file_def ex_disjoint_def ex_libs_def ex_json_def)
  have disj: "\<forall>j1\<in>set (jobs (fs ex_disjoint)). \<forall>j2\<in>set (jobs (fs ex_disjoint)).
      j1 \<noteq> j2 \<longrightarrow> fst ` set (writes ex_libs (fs ex_disjoint) j1)
                    \<inter> fst ` set (writes ex_libs (fs ex_disjoint) j2) = {}"
    by (simp add: j a)
  have d: "lookup (fs ex_disjoint) [''data''] = Some (Dir ?es)"
    by (simp add: ex_disjoint_def)
  have d': "lookup (fs ex_disjoint_swapped) [''data''] = Some (Dir ?es')"
    by (simp add: ex_disjoint_swapped_def)
  have perm: "mset ?es' = mset ?es"
    by (simp add: add.commute)
  have dist: "distinct (map fst ?es)"
    by simp
  have u: "fst (load_data ex_libs ex_disjoint) ''author'' = Some ''A''"
    using disjoint_keys_union [OF disj d d' perm dist, of "''author''" "''A''"]
    by (simp add: j a)
  have s: "fst (load_data ex_libs ex_disjoint_swapped) = fst (load_data ex_libs ex_disjoint)"
    using disjoint_keys_union [OF disj d d' perm dist] by blast
  show ?thesis
    using j j' a u s by simp
qed

subsection \<open>Claim C1\<close>

text \<open>
  C1, as stated, fails. The initial build of \<open>ex_site\<close> loads the data file and renders
  the two templates, but \<open>templates/about.html\<close> is not copied: no line of the output is
  about it and \<open>site/about.html\<close> does not exist afterwards, as it would after
  \<open>copy_html_files\<close>.
\<close>

theorem initial_build_counterexample:
  "read_file (fs ex_site) ''templates/about.html'' = Some ''about''
   \<and> out (initial_build ex_libs ex_site)
       = [Calling None, Loaded ''data/a.json'',
          Rendered ''templates/a.jinja.j2'' ''site/a.html.html'',
          Rendered ''templates/x/a.html.j2'' ''site/x/a.html'']
   \<and> \<not> path_exists (fs (initial_build ex_libs ex_site)) ''site/about.html''
   \<and> path_exists (fs (copy_html_files ex_site)) ''site/about.html''"
  by code_simp

text \<open>
  C1, amended. A run without a trigger path (\<open>None\<close>, as at the start of the program, or an
  empty string or list) loads the data and renders the files of \<open>template_files\<close>; it
  does not copy the HTML files.
  \<^item> The lines of \<open>load_data\<close> are those of the data files, each \<open>Loaded\<close> or an error
    as the file deserves, and the context \<open>d\<close> handed to the engine is the mapping merged
    from what the files store.
  \<^item> The run is the rendering loop over \<open>template_files\<close>, and every iteration does
    what \<open>rendered\<close> asks with \<open>d\<close>: where the engine returns a text and the output file
    can be written, the file holds that text.
  \<^item> A file written by an iteration is still there at the end, unless a later template has
    the same output name.
  \<^item> No line of \<open>copy_html_files\<close> is printed.
\<close>

theorem build_without_trigger:
  assumes "trigger_path tr = None"
  shows "(let d = map_of (rev (concat (map (writes L (fs st)) (jobs (fs st)))));
              T = template_files (fs st);
              s0 = ensure_site
                     (st\<lparr>out := out st @ Calling tr # map (verdict L (fs st)) (jobs (fs st))\<rparr>);
              s = state_at (render_one L d) T s0;
              fin = render_all L tr st
          in filter is_load_line (printed st fin) = map (verdict L (fs st)) (jobs (fs st))
             \<and> map subject (filter is_render_line (printed st fin)) = T
             \<and> filter is_copy_line (printed st fin) = []
             \<and> fin = s (length T)
             \<and> (\<forall>i<length T. rendered L d (T ! i) (s i) (s (Suc i)))
             \<and> (\<forall>i<length T. \<forall>u.
                   read_file (fs (s (Suc i))) (outname (T ! i)) = Some u
                   \<and> (\<forall>j. i < j \<and> j < length T \<longrightarrow> outname (T ! j) \<noteq> outname (T ! i))
                   \<longrightarrow> read_file (fs fin) (outname (T ! i)) = Some u)
             \<and> initial_build L st = render_all L None st)"
proof -
  let ?d = "map_of (rev (concat (map (writes L (fs st)) (jobs (fs st)))))"
  let ?T = "template_files (fs st)"
  let ?s1 = "st\<lparr>out := out st @ Calling tr # map (verdict L (fs st)) (jobs (fs st))\<rparr>"
  let ?s = "state_at (render_one L ?d) ?T (ensure_site ?s1)"
  have eq: "render_all L tr st = render_templates L ?d ?s1"
    using assms by (simp add: render_all_def loaded render_all_templates_def)
  have run: "render_templates L ?d ?s1 = ?s (length ?T)"
    by (simp add: render_templates_def Let_def state_at_all)
  have lines: "filter is_load_line (printed st (render_templates L ?d ?s1))
                 = map (verdict L (fs st)) (jobs (fs st))
         \<and> map subject (filter is_render_line (printed st (render_templates L ?d ?s1))) = ?T
         \<and> filter is_copy_line (printed st (render_templates L ?d ?s1)) = []"
    by (rule render_lines [where pre = "Calling tr # map (verdict L (fs st)) (jobs (fs st))"])
       simp_all
  have steps: "\<forall>i<length ?T. rendered L ?d (?T ! i) (?s i) (?s (Suc i))"
    by (simp add: state_at_Suc render_one_rendered_spec)
  have keep: "\<forall>i<length ?T. \<forall>u.
       read_file (fs (?s (Suc i))) (outname (?T ! i)) = Some u
       \<and> (\<forall>j. i < j \<and> j < length ?T \<longrightarrow> outname (?T ! j) \<noteq> outname (?T ! i))
       \<longrightarrow> read_file (fs (?s (length ?T))) (outname (?T ! i)) = Some u"
    using state_at_persists [where step = "render_one L ?d" and tgt = outname, OF render_frame]
    by blast
  show ?thesis
    unfolding Let_def eq
    using lines steps keep unfolding run
    by (simp add: initial_build_def)
qed

theorem build_without_trigger_witness:
  "trigger_path None = None
   \<and> filter is_load_line (printed ex_site (render_all ex_libs None ex_site))
       = [Loaded ''data/a.json'']
   \<and> map subject (filter is_render_line (printed ex_site (render_all ex_libs None ex_site)))
       = [''templates/a.jinja.j2'', ''templates/x/a.html.j2'']
   \<and> filter is_copy_line (printed ex_site (render_all ex_libs None ex_site)) = []
   \<and> read_file (fs (render_all ex_libs None ex_site)) ''site/x/a.html'' = Some ''J''"
proof -
  let ?d = "map_of (rev (concat (map (writes ex_libs (fs ex_site)) (jobs (fs ex_site)))))"
  let ?T = "template_files (fs ex_site)"
  let ?s0 = "ensure_site (ex_site\<lparr>out := out ex_site @ Calling None
                # map (verdict ex_libs (fs ex_site)) (jobs (fs ex_site))\<rparr>)"
  let ?s = "state_at (render_one ex_libs ?d) ?T ?s0"
  let ?fin = "render_all ex_libs None ex_site"
  let ?f = "''templates/x/a.html.j2''"
  have h: "trigger_path None = None"
    by simp
  have T: "Suc 0 < length ?T" "?T ! Suc 0 = ?f"
    "\<forall>j. Suc 0 < j \<and> j < length ?T \<longrightarrow> outname (?T ! j) \<noteq> outname (?T ! Suc 0)"
    by (simp_all add: ex_site_templates)
  have o: "outname ?f = ''site/x/a.html''"
    by code_simp
  have e: "render ex_libs (fs (?s (Suc 0))) (relpath ?f ''templates'') ?d = Inr ''J''"
    by code_simp
  have c: "can_write (fs (?s (Suc 0))) (outname ?f)"
    by code_simp
  have v: "map (verdict ex_libs (fs ex_site)) (jobs (fs ex_site)) = [Loaded ''data/a.json'']"
    by code_simp
  from build_without_trigger [OF h, of ex_libs ex_site, unfolded Let_def]
  have lines: "filter is_load_line (printed ex_site ?fin)
                 = map (verdict ex_libs (fs ex_site)) (jobs (fs ex_site))"
      "map subject (filter is_render_line (printed ex_site ?fin)) = ?T"
      "filter is_copy_line (printed ex_site ?fin) = []"
    and steps: "\<forall>i<length ?T. rendered ex_libs ?d (?T ! i) (?s i) (?s (Suc i))"
    and keep: "\<forall>i<length ?T. \<forall>u.
       read_file (fs (?s (Suc i))) (outname (?T ! i)) = Some u
       \<and> (\<forall>j. i < j \<and> j < length ?T \<longrightarrow> outname (?T ! j) \<noteq> outname (?T ! i))
       \<longrightarrow> read_file (fs ?fin) (outname (?T ! i)) = Some u"
    by blast+
  from steps T(1) have "rendered ex_libs ?d (?T ! Suc 0) (?s (Suc 0)) (?s (Suc (Suc 0)))"
    by blast
  then have "rendered ex_libs ?d ?f (?s (Suc 0)) (?s (Suc (Suc 0)))"
    by (simp only: T(2))
  then have "read_file (fs (?s (Suc (Suc 0)))) (outname ?f) = Some ''J''"
    using e c by (rule rendered_file)
  then have "read_file (fs (?s (Suc (Suc 0)))) (outname (?T ! Suc 0)) = Some ''J''"
    by (simp only: T(2))
  with keep T(1,3) have "read_file (fs ?fin) (outname (?T ! Suc 0)) = Some ''J''"
    by blast
  then have "read_file (fs ?fin) ''site/x/a.html'' = Some ''J''"
    by (simp only: T(2) o)
  then show ?thesis
    using h lines by (simp add: v ex_site_templates)
qed

subsection \<open>Claim C2\<close>

text \<open>
  C2, as stated, fails. \<open>render_all\<close> calls \<open>load_data\<close> before it looks at the trigger:
  for the trigger \<open>templates/about.html\<close> the data file of \<open>ex_site\<close> is loaded again
  before the copy.
\<close>

theorem html_trigger_counterexample:
  "trigger_path (Some (Path ''templates/about.html'')) = Some ''templates/about.html''
   \<and> endswith ''templates/about.html'' ''.html''
   \<and> out (render_all ex_libs (Some (Path ''templates/about.html'')) ex_site)
       = [Calling (Some (Path ''templates/about.html'')), Loaded ''data/a.json'',
          RebuildTriggered ''templates/about.html'',
          Copied ''templates/about.html'' ''site/about.html'']"
  by code_simp

text \<open>
  C2, amended. A run whose trigger path ends in \<open>.html\<close> loads the data (the context is
  not used), then copies the HTML files and returns.
  \<^item> The lines of \<open>load_data\<close> are those of the data files, each \<open>Loaded\<close> or an error
    as the file deserves.
  \<^item> The run is the copying loop over the files that \<open>glob\<close> finds, and every iteration
    does what \<open>copied\<close> asks: where the file can be read and its destination written, the
    destination holds the text of the file.
  \<^item> A copy made by an iteration is still there at the end, unless a later file has the
    same destination.
  \<^item> No rendering line is printed, and the template engine plays no part in the result.
\<close>

theorem html_trigger_copies:
  assumes "trigger_path tr = Some t" and "endswith t ''.html''"
  shows "(let H = glob_rec (fs st) ''templates'' html_pat;
              s0 = ensure_site
                     (st\<lparr>out := out st @ Calling tr # map (verdict L (fs st)) (jobs (fs st))
                                   @ [RebuildTriggered t]\<rparr>);
              s = state_at copy_one H s0;
              fin = render_all L tr st
          in filter is_load_line (printed st fin) = map (verdict L (fs st)) (jobs (fs st))
             \<and> map subject (filter is_copy_line (printed st fin)) = H
             \<and> filter is_render_line (printed st fin) = []
             \<and> render_all (L\<lparr>render := r\<rparr>) tr st = fin
             \<and> fin = s (length H)
             \<and> (\<forall>i<length H. copied (H ! i) (s i) (s (Suc i)))
             \<and> (\<forall>i<length H. \<forall>u.
                   read_file (fs (s (Suc i))) (destination (H ! i)) = Some u
                   \<and> (\<forall>j. i < j \<and> j < length H \<longrightarrow> destination (H ! j) \<noteq> destination (H ! i))
                   \<longrightarrow> read_file (fs fin) (destination (H ! i)) = Some u))"
proof -
  let ?H = "glob_rec (fs st) ''templates'' html_pat"
  let ?s1 = "st\<lparr>out := out st @ Calling tr # map (verdict L (fs st)) (jobs (fs st))
                         @ [RebuildTriggered t]\<rparr>"
  let ?s = "state_at copy_one ?H (ensure_site ?s1)"
  have w: "writes (L\<lparr>render := r\<rparr>) root j = writes L root j"
    and v: "verdict (L\<lparr>render := r\<rparr>) root j = verdict L root j" for root j
    by (cases j; cases "fst j"; simp)+
  have eq: "render_all L tr st = copy_html_files ?s1"
    using assms
    by (simp add: render_all_def loaded render_all_templates_def Let_def) (simp add: print_def)
  have eq': "render_all (L\<lparr>render := r\<rparr>) tr st = copy_html_files ?s1"
    using assms
    by (simp add: render_all_def loaded render_all_templates_def Let_def w v cong: map_cong)
       (simp add: print_def)
  have run: "copy_html_files ?s1 = ?s (length ?H)"
    by (simp add: copy_html_files_def Let_def state_at_all)
  have lines: "filter is_load_line (printed st (copy_html_files ?s1))
                 = map (verdict L (fs st)) (jobs (fs st))
         \<and> map subject (filter is_copy_line (printed st (copy_html_files ?s1))) = ?H
         \<and> filter is_render_line (printed st (copy_html_files ?s1)) = []"
    by (rule copy_lines [where pre = "Calling tr # map (verdict L (fs st)) (jobs (fs st))
          @ [RebuildTriggered t]"]) simp_all
  have steps: "\<forall>i<length ?H. copied (?H ! i) (?s i) (?s (Suc i))"
    by (simp add: state_at_Suc copy_one_copied_spec)
  have keep: "\<forall>i<length ?H. \<forall>u.
       read_file (fs (?s (Suc i))) (destination (?H ! i)) = Some u
       \<and> (\<forall>j. i < j \<and> j < length ?H \<longrightarrow> destination (?H ! j) \<noteq> destination (?H ! i))
       \<longrightarrow> read_file (fs (?s (length ?H))) (destination (?H ! i)) = Some u"
    using state_at_persists [where step = copy_one and tgt = destination, OF copy_frame]
    by blast
  show ?thesis
    unfolding Let_def eq eq'
    using lines steps keep unfolding run
    by simp
qed

theorem html_trigger_copies_witness:
  "trigger_path (Some (Path ''templates/about.html'')) = Some ''templates/about.html''
   \<and> endswith ''templates/about.html'' ''.html''
   \<and> filter is_load_line
         (printed ex_site (render_all ex_libs (Some (Path ''templates/about.html'')) ex_site))
       = [Loaded ''data/a.json'']
   \<and> map subject (filter is_copy_line
         (printed ex_site (render_all ex_libs (Some (Path ''templates/about.html'')) ex_site)))
       = [''templates/about.html'']
   \<and> filter is_render_line
         (printed ex_site (render_all ex_libs (Some (Path ''templates/about.html'')) ex_site)) = []
   \<and> read_file (fs ex_site) ''templates/about.html'' = Some ''about''
   \<and> read_file (fs (render_all ex_libs (Some (Path ''templates/about.html'')) ex_site))
         ''site/about.html'' = Some ''about''"
proof -
  let ?tr = "Some (Path ''templates/about.html'')"
  let ?H = "glob_rec (fs ex_site) ''templates'' html_pat"
  let ?s0 = "ensure_site (ex_site\<lparr>out := out ex_site @ Calling ?tr
                # map (verdict ex_libs (fs ex_site)) (jobs (fs ex_site))
                @ [RebuildTriggered ''templates/about.html'']\<rparr>)"
  let ?s = "state_at copy_one ?H ?s0"
  let ?fin = "render_all ex_libs ?tr ex_site"
  let ?f = "''templates/about.html''"
  have h1: "trigger_path ?tr = Some ''templates/about.html''"
    by simp
  have h2: "endswith ''templates/about.html'' ''.html''"
    by (simp add: endswith_def)
  have H: "0 < length ?H" "?H ! 0 = ?f"
    "\<forall>j. 0 < j \<and> j < length ?H \<longrightarrow> destination (?H ! j) \<noteq> destination (?H ! 0)"
    by (auto simp: ex_site_html)
  have o: "destination ?f = ''site/about.html''"
    by code_simp
  have e: "read_file (fs (?s 0)) ?f = Some ''about''"
    by code_simp
  have c: "can_write (fs (?s 0)) (destination ?f)"
    by code_simp
  have v: "map (verdict ex_libs (fs ex_site)) (jobs (fs ex_site)) = [Loaded ''data/a.json'']"
    by code_simp
  have src: "read_file (fs ex_site) ?f = Some ''about''"
    by code_simp
  from html_trigger_copies [OF h1 h2, where L = ex_libs and st = ex_site, unfolded Let_def]
  have lines: "filter is_load_line (printed ex_site ?fin)
                 = map (verdict ex_libs (fs ex_site)) (jobs (fs ex_site))"
      "map subject (filter is_copy_line (printed ex_site ?fin)) = ?H"
      "filter is_render_line (printed ex_site ?fin) = []"
    and steps: "\<forall>i<length ?H. copied (?H ! i) (?s i) (?s (Suc i))"
    and keep: "\<forall>i<length ?H. \<forall>u.
       read_file (fs (?s (Suc i))) (destination (?H ! i)) = Some u
       \<and> (\<forall>j. i < j \<and> j < length ?H \<longrightarrow> destination (?H ! j) \<noteq> destination (?H ! i))
       \<longrightarrow> read_file (fs ?fin) (destination (?H ! i)) = Some u"
    by blast+
  from steps H(1) have "copied (?H ! 0) (?s 0) (?s (Suc 0))"
    by blast
  then have "copied ?f (?s 0) (?s (Suc 0))"
    by (simp only: H(2))
  then have "read_file (fs (?s (Suc 0))) (destination ?f) = Some ''about''"
    using e c by (rule copied_file)
  then have "read_file (fs (?s (Suc 0))) (destination (?H ! 0)) = Some ''about''"
    by (simp only: H(2))
  with keep H(1,3) have "read_file (fs ?fin) (destination (?H ! 0)) = Some ''about''"
    by blast
  then have "read_file (fs ?fin) ''site/about.html'' = Some ''about''"
    by (simp only: H(2) o)
  then show ?thesis
    using h1 h2 lines src by (simp add: v ex_site_html)
qed

subsection \<open>Claim C3\<close>

text \<open>
  C3, as stated, fails. \<open>templates/nonpartials.j2\<close> of \<open>ex_site\<close> is a template with a
  recognised suffix and no segment of its path is \<open>partials\<close>, so it is not a partial;
  but a run triggered by \<open>data/a.json\<close> prints no line about it and writes no
  \<open>site/nonpartials.html\<close>: the loop renders the files of \<open>template_files\<close>, which
  leaves out every path that contains the string \<open>partials\<close>.
\<close>

theorem other_trigger_counterexample:
  "trigger_path (Some (Path ''data/a.json'')) = Some ''data/a.json''
   \<and> \<not> endswith ''data/a.json'' ''.html''
   \<and> read_file (fs ex_site) ''templates/nonpartials.j2'' = Some ''text''
   \<and> endswith ''templates/nonpartials.j2'' ''.j2''
   \<and> ''partials'' \<notin> set (split_path ''templates/nonpartials.j2'')
   \<and> ''templates/nonpartials.j2''
        \<notin> set (map subject (out (render_all ex_libs (Some (Path ''data/a.json'')) ex_site)))
   \<and> \<not> path_exists (fs (render_all ex_libs (Some (Path ''data/a.json'')) ex_site))
          ''site/nonpartials.html''"
  by code_simp

text \<open>
  C3, amended. A run whose trigger path does not end in \<open>.html\<close> loads the data and
  renders the files of \<open>template_files\<close> against the context just loaded; it does not
  copy the HTML files.
  \<^item> The lines of \<open>load_data\<close> are those of the data files, each \<open>Loaded\<close> or an error
    as the file deserves, and the context \<open>d\<close> handed to the engine is the mapping merged
    from what the files store.
  \<^item> The run is the rendering loop over \<open>template_files\<close>, and every iteration does
    what \<open>rendered\<close> asks with \<open>d\<close>: where the engine returns a text and the output file
    can be written, the file holds that text.
  \<^item> A file written by an iteration is still there at the end, unless a later template has
    the same output name.
  \<^item> No line of \<open>copy_html_files\<close> is printed.
\<close>

theorem other_trigger_renders:
  assumes "trigger_path tr = Some t" and "\<not> endswith t ''.html''"
  shows "(let d = map_of (rev (concat (map (writes L (fs st)) (jobs (fs st)))));
              T = template_files (fs st);
              s0 = ensure_site
                     (st\<lparr>out := out st @ Calling tr # map (verdict L (fs st)) (jobs (fs st))
                                   @ [RebuildTriggered t]\<rparr>);
              s = state_at (render_one L d) T s0;
              fin = render_all L tr st
          in filter is_load_line (printed st fin) = map (verdict L (fs st)) (jobs (fs st))
             \<and> map subject (filter is_render_line (printed st fin)) = T
             \<and> filter is_copy_line (printed st fin) = []
             \<and> fin = s (length T)
             \<and> (\<forall>i<length T. rendered L d (T ! i) (s i) (s (Suc i)))
             \<and> (\<forall>i<length T. \<forall>u.
                   read_file (fs (s (Suc i))) (outname (T ! i)) = Some u
                   \<and> (\<forall>j. i < j \<and> j < length T \<longrightarrow> outname (T ! j) \<noteq> outname (T ! i))
                   \<longrightarrow> read_file (fs fin) (outname (T ! i)) = Some u))"
proof -
  let ?d = "map_of (rev (concat (map (writes L (fs st)) (jobs (fs st)))))"
  let ?T = "template_files (fs st)"
  let ?s1 = "st\<lparr>out := out st @ Calling tr # map (verdict L (fs st)) (jobs (fs st))
                         @ [RebuildTriggered t]\<rparr>"
  let ?s = "state_at (render_one L ?d) ?T (ensure_site ?s1)"
  have eq: "render_all L tr st = render_templates L ?d ?s1"
    using assms
    by (simp add: render_all_def loaded render_all_templates_def Let_def) (simp add: print_def)
  have run: "render_templates L ?d ?s1 = ?s (length ?T)"
    by (simp add: render_templates_def Let_def state_at_all)
  have lines: "filter is_load_line (printed st (render_templates L ?d ?s1))
                 = map (verdict L (fs st)) (jobs (fs st))
         \<and> map subject (filter is_render_line (printed st (render_templates L ?d ?s1))) = ?T
         \<and> filter is_copy_line (printed st (render_templates L ?d ?s1)) = []"
    by (rule render_lines [where pre = "Calling tr # map (verdict L (fs st)) (jobs (fs st))
          @ [RebuildTriggered t]"]) simp_all
  have steps: "\<forall>i<length ?T. rendered L ?d (?T ! i) (?s i) (?s (Suc i))"
    by (simp add: state_at_Suc render_one_rendered_spec)
  have keep: "\<forall>i<length ?T. \<forall>u.
       read_file (fs (?s (Suc i))) (outname (?T ! i)) = Some u
       \<and> (\<forall>j. i < j \<and> j < length ?T \<longrightarrow> outname (?T ! j) \<noteq> outname (?T ! i))
       \<longrightarrow> read_file (fs (?s (length ?T))) (outname (?T ! i)) = Some u"
    using state_at_persists [where step = "render_one L ?d" and tgt = outname, OF render_frame]
    by blast
  show ?thesis
    unfolding Let_def eq
    using lines steps keep unfolding run
    by simp
qed

theorem other_trigger_renders_witness:
  "trigger_path (Some (Paths [''data/a.json''])) = Some ''data/a.json''
   \<and> \<not> endswith ''data/a.json'' ''.html''
   \<and> filter is_load_line
         (printed ex_site (render_all ex_libs (Some (Paths [''data/a.json''])) ex_site))
       = [Loaded ''data/a.json'']
   \<and> map subject (filter is_render_line
         (printed ex_site (render_all ex_libs (Some (Paths [''data/a.json''])) ex_site)))
       = [''templates/a.jinja.j2'', ''templates/x/a.html.j2'']
   \<and> filter is_copy_line
         (printed ex_site (render_all ex_libs (Some (Paths [''data/a.json''])) ex_site)) = []
   \<and> read_file (fs (render_all ex_libs (Some (Paths [''data/a.json''])) ex_site))
         ''site/x/a.html'' = Some ''J''"
proof -
  let ?tr = "Some (Paths [''data/a.json''])"
  let ?d = "map_of (rev (concat (map (writes ex_libs (fs ex_site)) (jobs (fs ex_site)))))"
  let ?T = "template_files (fs ex_site)"
  let ?s0 = "ensure_site (ex_site\<lparr>out := out ex_site @ Calling ?tr
                # map (verdict ex_libs (fs ex_site)) (jobs (fs ex_site))
                @ [RebuildTriggered ''data/a.json'']\<rparr>)"
  let ?s = "state_at (render_one ex_libs ?d) ?T ?s0"
  let ?fin = "render_all ex_libs ?tr ex_site"
  let ?f = "''templates/x/a.html.j2''"
  have h1: "trigger_path ?tr = Some ''data/a.json''"
    by simp
  have h2: "\<not> endswith ''data/a.json'' ''.html''"
    by (simp add: endswith_def)
  have T: "Suc 0 < length ?T" "?T ! Suc 0 = ?f"
    "\<forall>j. Suc 0 < j \<and> j < length ?T \<longrightarrow> outname (?T ! j) \<noteq> outname (?T ! Suc 0)"
    by (simp_all add: ex_site_templates)
  have o: "outname ?f = ''site/x/a.html''"
    by code_simp
  have e: "render ex_libs (fs (?s (Suc 0))) (relpath ?f ''templates'') ?d = Inr ''J''"
    by code_simp
  have c: "can_write (fs (?s (Suc 0))) (outname ?f)"
    by code_simp
  have v: "map (verdict ex_libs (fs ex_site)) (jobs (fs ex_site)) = [Loaded ''data/a.json'']"
    by code_simp
  from other_trigger_renders [OF h1 h2, of ex_libs ex_site, unfolded Let_def]
  have lines: "filter is_load_line (printed ex_site ?fin)
                 = map (verdict ex_libs (fs ex_site)) (jobs (fs ex_site))"
      "map subject (filter is_render_line (printed ex_site ?fin)) = ?T"
      "filter is_copy_line (printed ex_site ?fin) = []"
    and steps: "\<forall>i<length ?T. rendered ex_libs ?d (?T ! i) (?s i) (?s (Suc i))"
    and keep: "\<forall>i<length ?T. \<forall>u.
       read_file (fs (?s (Suc i))) (outname (?T ! i)) = Some u
       \<and> (\<forall>j. i < j \<and> j < length ?T \<longrightarrow> outname (?T ! j) \<noteq> outname (?T ! i))
       \<longrightarrow> read_file (fs ?fin) (outname (?T ! i)) = Some u"
    by blast+
  from steps T(1) have "rendered ex_libs ?d (?T ! Suc 0) (?s (Suc 0)) (?s (Suc (Suc 0)))"
    by blast
  then have "rendered ex_libs ?d ?f (?s (Suc 0)) (?s (Suc (Suc 0)))"
    by (simp only: T(2))
  then have "read_file (fs (?s (Suc (Suc 0)))) (outname ?f) = Some ''J''"
    using e c by (rule rendered_file)
  then have "read_file (fs (?s (Suc (Suc 0)))) (outname (?T ! Suc 0)) = Some ''J''"
    by (simp only: T(2))
  with keep T(1,3) have "read_file (fs ?fin) (outname (?T ! Suc 0)) = Some ''J''"
    by blast
  then have "read_file (fs ?fin) ''site/x/a.html'' = Some ''J''"
    by (simp only: T(2) o)
  then show ?thesis
    using h1 h2 lines by (simp add: v ex_site_templates)
qed

subsection \<open>Claim C9\<close>

text \<open>
  C9. Every file that \<open>load_data\<close> processes is an entry of the data directory itself.
  What lies in a subdirectory of \<open>data\<close> is never read: two data directories with the
  same files and the same names of subdirectories, whatever these contain, give the same
  mapping and the same output. This holds although the handler rebuilds for a change of
  a file at any depth below \<open>data/\<close>.
\<close>

theorem subdirectories_ignored:
  assumes d: "lookup (fs st) [''data''] = Some (Dir es)"
    and d': "lookup (fs st') [''data''] = Some (Dir es')"
    and same: "same_top es es'"
    and names: "\<forall>n\<in>fst ` set es. CHR ''/'' \<notin> set n"
    and o: "out st' = out st"
  shows "(\<forall>j\<in>set (jobs (fs st)). \<exists>n\<in>fst ` set es. snd j = ''data/'' @ n)
         \<and> fst (load_data L st') = fst (load_data L st)
         \<and> out (snd (load_data L st')) = out (snd (load_data L st))
         \<and> concerns \<lparr>src_path = ''data/'' @ p, is_directory = False\<rparr>"
proof -
  have direct: "\<exists>n\<in>fst ` set es. snd j = ''data/'' @ n" if "j \<in> set (jobs (fs st))" for j
    using jobs_data_names [OF d that] by force
  have same_jobs: "jobs (fs st') = jobs (fs st)"
    by (simp add: jobs_data [OF d] jobs_data [OF d'] same_top_glob1 [OF same])
  have att: "attempt parse (fs st') (''data'' @ ''/'' @ n) = attempt parse (fs st) (''data'' @ ''/'' @ n)"
    if "n \<in> fst ` set es" for n and parse :: "string \<Rightarrow> 'a doc option"
  proof -
    have "split_path n = [n]"
      using that names by (intro split_path_no_slash) blast
    then show ?thesis
      unfolding attempt_data [OF d] attempt_data [OF d']
      by (simp only: lookup_single same_top_file [OF same])
  qed
  have same_writes: "writes L (fs st') j = writes L (fs st) j"
    and same_verdict: "verdict L (fs st') j = verdict L (fs st) j"
    if "j \<in> set (jobs (fs st))" for j
  proof -
    from jobs_data_names [OF d that]
    obtain fmt n where j: "j = (fmt, ''data'' @ ''/'' @ n)" and n: "n \<in> fst ` set es"
      by blast
    show "writes L (fs st') j = writes L (fs st) j"
      and "verdict L (fs st') j = verdict L (fs st) j"
      unfolding j writes.simps verdict.simps att [OF n] by (rule refl)+
  qed
  have w: "map (writes L (fs st')) (jobs (fs st)) = map (writes L (fs st)) (jobs (fs st))"
    by (rule map_cong [OF refl]) (rule same_writes)
  have v: "map (verdict L (fs st')) (jobs (fs st)) = map (verdict L (fs st)) (jobs (fs st))"
    by (rule map_cong [OF refl]) (rule same_verdict)
  have "fst (load_data L st') = fst (load_data L st)"
    unfolding load_data_eq same_jobs w by simp
  moreover have "out (snd (load_data L st')) = out (snd (load_data L st))"
    unfolding load_data_eq same_jobs v by (simp add: o)
  moreover have "concerns \<lparr>src_path = ''data/'' @ p, is_directory = False\<rparr>"
    by (simp add: concerns_def)
  ultimately show ?thesis
    using direct by blast
qed

theorem subdirectories_ignored_witness:
  "jobs (fs ex_nested) = [(JSON, ''data/a.json'')]
   \<and> read_file (fs ex_nested) ''data/sub/c.json'' = Some ''{\"title\": \"J\"}''
   \<and> read_file (fs ex_nested_emptied) ''data/sub/c.json'' = None
   \<and> fst (load_data ex_libs ex_nested_emptied) = fst (load_data ex_libs ex_nested)
   \<and> out (snd (load_data ex_libs ex_nested_emptied)) = out (snd (load_data ex_libs ex_nested))
   \<and> concerns \<lparr>src_path = ''data/sub/c.json'', is_directory = False\<rparr>"
proof -
  let ?es = "[(''a.json'', File ''{\"author\": \"A\"}''),
              (''sub'', Dir [(''c.json'', File ''{\"title\": \"J\"}'')])]"
  let ?es' = "[(''a.json'', File ''{\"author\": \"A\"}''), (''sub'', Dir [])]"
  have d: "lookup (fs ex_nested) [''data''] = Some (Dir ?es)"
    by (simp add: ex_nested_def)
  have d': "lookup (fs ex_nested_emptied) [''data''] = Some (Dir ?es')"
    by (simp add: ex_nested_emptied_def)
  have same: "same_top ?es ?es'"
    by (simp add: same_top_def)
  have names: "\<forall>n\<in>fst ` set ?es. CHR ''/'' \<notin> set n"
    by simp
  have o: "out ex_nested_emptied = out ex_nested"
    by (simp add: ex_nested_def ex_nested_emptied_def)
  have j: "jobs (fs ex_nested) = [(JSON, ''data/a.json'')]"
    by code_simp
  have r: "read_file (fs ex_nested) ''data/sub/c.json'' = Some ''{\"title\": \"J\"}''"
    "read_file (fs ex_nested_emptied) ''data/sub/c.json'' = None"
    by (simp_all add: read_file_def ex_nested_def ex_nested_emptied_def)
  from subdirectories_ignored [OF d d' same names o, of ex_libs "''sub/c.json''"]
  have "fst (load_data ex_libs ex_nested_emptied) = fst (load_data ex_libs ex_nested)"
    and "out (snd (load_data ex_libs ex_nested_emptied)) = out (snd (load_data ex_libs ex_nested))"
    and "concerns \<lparr>src_path = ''data/'' @ ''sub/c.json'', is_directory = False\<rparr>"
    by blast+
  then show ?thesis
    using j r by simp
qed

subsection \<open>Claim C5\<close>




subsection \<open>Claim C8\<close>

text \<open>
  C8, as stated, fails. Its example holds: \<open>templates/x/a.html.j2\<close> is written to
  \<open>site/x/a.html\<close>. But \<open>replace\<close> rewrites the suffix strings wherever they occur,
  one after the other: the template \<open>a.jinja.j2\<close> is written to \<open>site/a.html.html\<close>,
  not to \<open>site/a.jinja.html\<close>, and a template in a directory \<open>v.j2\<close> goes to the
  directory \<open>site/v.html\<close>.
\<close>

theorem output_name_counterexample:
  "''templates/a.jinja.j2'' \<in> set (template_files (fs ex_site))
   \<and> outname ''templates/a.jinja.j2'' = ''site/a.html.html''
   \<and> outname ''templates/a.jinja.j2'' \<noteq> ''site/a.jinja.html''
   \<and> outname ''templates/v.j2/a.j2'' = ''site/v.html/a.html''
   \<and> Rendered ''templates/a.jinja.j2'' ''site/a.html.html''
        \<in> set (out (render_all ex_libs None ex_site))"
  by code_simp

text \<open>
  C8, amended. For a template whose relative path is a stem followed by \<open>.j2\<close> or
  \<open>.jinja\<close>, where the stem contains neither of the two strings (and does not start
  with a slash), the output path is \<open>site/\<close> followed by the stem, with \<open>.html\<close>
  appended unless the stem ends in it already. So \<open>templates/x/a.html.j2\<close> goes to
  \<open>site/x/a.html\<close>. Whenever the loop body reports a template as rendered, the file it
  names is \<open>outname\<close> of the template and holds what the engine returned.
\<close>

theorem output_name:
  assumes "suf = ''.j2'' \<or> suf = ''.jinja''"
    and "\<not> contains ''.j2'' stem" and "\<not> contains ''.jinja'' stem"
    and "\<not> prefix ''/'' stem"
  shows "outname (''templates/'' @ stem @ suf)
           = ''site/'' @ (if endswith stem ''.html'' then stem else stem @ ''.html'')
         \<and> outname ''templates/x/a.html.j2'' = ''site/x/a.html''
         \<and> (out (render_one L d f st) = out st @ [Rendered f o'] \<longrightarrow>
              o' = outname f
              \<and> (\<exists>output. render L (fs st) (relpath f ''templates'') d = Inr output
                    \<and> read_file (fs (render_one L d f st)) o' = Some output))"
proof -
  let ?b = "if endswith stem ''.html'' then stem else stem @ ''.html''"
  have rel: "relpath (''templates/'' @ stem @ suf) ''templates'' = stem @ suf"
    by (simp add: relpath_def)
  have strip: "replace ''.jinja'' ''.html''
           (replace ''.html.jinja'' ''.html''
             (replace ''.j2'' ''.html''
               (replace ''.html.j2'' ''.html'' (stem @ suf)))) = ?b"
    using outname_strip [OF assms(1), of stem] assms(2,3)
    by (simp add: contains_iff_sublist endswith_iff_suffix)
  have "\<not> prefix ''/'' ?b"
    using assms(4) by (cases stem) (auto simp: endswith_def)
  then have "join ''site'' ?b = ''site/'' @ ?b"
    by (simp add: join_def endswith_def)
  then have "outname (''templates/'' @ stem @ suf) = ''site/'' @ ?b"
    unfolding outname_def rel strip .
  moreover have "outname ''templates/x/a.html.j2'' = ''site/x/a.html''"
    by (simp add: outname_def relpath_def join_def endswith_def)
  ultimately show ?thesis
    using render_one_rendered [of L d f st o'] by blast
qed

theorem output_name_witness:
  "\<not> contains ''.j2'' ''x/a.html'' \<and> \<not> contains ''.jinja'' ''x/a.html''
   \<and> \<not> prefix ''/'' ''x/a.html''
   \<and> outname ''templates/x/a.html.j2'' = ''site/x/a.html''
   \<and> out (render_one ex_libs [''title'' \<mapsto> ''J''] ''templates/x/a.html.j2'' ex_site)
       = [Rendered ''templates/x/a.html.j2'' ''site/x/a.html'']
   \<and> read_file (fs (render_one ex_libs [''title'' \<mapsto> ''J''] ''templates/x/a.html.j2'' ex_site))
         ''site/x/a.html'' = Some ''J''"
proof -
  let ?d = "[''title'' \<mapsto> ''J'']"
  let ?f = "''templates/x/a.html.j2''"
  have h1: "''.j2'' = ''.j2'' \<or> ''.j2'' = ''.jinja''"
    by simp
  have h2: "\<not> contains ''.j2'' ''x/a.html''" and h3: "\<not> contains ''.jinja'' ''x/a.html''"
    and h4: "\<not> prefix ''/'' ''x/a.html''"
    by simp_all
  have e: "endswith ''x/a.html'' ''.html''"
    by (simp add: endswith_def)
  have o: "out (render_one ex_libs ?d ?f ex_site) = out ex_site @ [Rendered ?f ''site/x/a.html'']"
    by code_simp
  have r: "render ex_libs (fs ex_site) (relpath ?f ''templates'') ?d = Inr ''J''"
    by code_simp
  from output_name [OF h1 h2 h3 h4, of ex_libs ?d ?f ex_site "''site/x/a.html''"] o
  have n: "outname (''templates/'' @ ''x/a.html'' @ ''.j2'')
             = ''site/'' @ (if endswith ''x/a.html'' ''.html'' then ''x/a.html'' else ''x/a.html'' @ ''.html'')"
    and "\<exists>output. render ex_libs (fs ex_site) (relpath ?f ''templates'') ?d = Inr output
           \<and> read_file (fs (render_one ex_libs ?d ?f ex_site)) ''site/x/a.html'' = Some output"
    by blast+
  then have w: "read_file (fs (render_one ex_libs ?d ?f ex_site)) ''site/x/a.html'' = Some ''J''"
    using r by auto
  have "out ex_site = []"
    by (simp add: ex_site_def)
  then show ?thesis
    using h2 h3 h4 n e o w by simp
qed

end
